theory Spec2Isabelle
  imports Main "HOL-Library.Multiset"
begin

section \<open>JavaScript values and tiles\<close>

text \<open>
  The values a callback or an action of \<^verbatim>\<open>model.js\<close> can return: \<^verbatim>\<open>undefined\<close>,
  \<^verbatim>\<open>null\<close>, a boolean, a number, or an \<^verbatim>\<open>Error\<close> object with its message. Numbers
  are the integers the program computes with (cell values, counters, coordinates); they
  stay far below \<open>2\<^sup>5\<^sup>3\<close>, where JavaScript numbers are exact.
\<close>

datatype jsval = JUndefined | JNull | JBool bool | JNum int | JError string

text \<open>
  What an element of the array \<^verbatim>\<open>data_\<close> reads as: a number, or \<^verbatim>\<open>undefined\<close>
  (\<open>None\<close>) where nothing was stored.
\<close>

type_synonym tile = "int option"

text \<open>\<^verbatim>\<open>minesweeper.Tile = { MINE: -1, UNKNOWN: -2, FLAG: -3 }\<close>\<close>

abbreviation MINE :: int where "MINE \<equiv> - 1"
abbreviation UNKNOWN :: int where "UNKNOWN \<equiv> - 2"
abbreviation FLAG :: int where "FLAG \<equiv> - 3"

text \<open>
  The comparisons \<^verbatim>\<open>tile < n\<close>, \<^verbatim>\<open>tile > n\<close> and \<^verbatim>\<open>tile >= n\<close> of a tile with a
  number: \<^verbatim>\<open>undefined\<close> converts to \<^verbatim>\<open>NaN\<close>, and every comparison with it is false.
\<close>

definition tile_lt :: "tile \<Rightarrow> int \<Rightarrow> bool" where
  "tile_lt t n = (case t of None \<Rightarrow> False | Some x \<Rightarrow> x < n)"

definition tile_gt :: "tile \<Rightarrow> int \<Rightarrow> bool" where
  "tile_gt t n = (case t of None \<Rightarrow> False | Some x \<Rightarrow> x > n)"

definition tile_ge :: "tile \<Rightarrow> int \<Rightarrow> bool" where
  "tile_ge t n = (case t of None \<Rightarrow> False | Some x \<Rightarrow> x \<ge> n)"

text \<open>\<^verbatim>\<open>v == null\<close>: the loose comparison holds for \<^verbatim>\<open>null\<close> and \<^verbatim>\<open>undefined\<close> only.\<close>

definition loosely_null :: "jsval \<Rightarrow> bool" where
  "loosely_null v = (v = JNull \<or> v = JUndefined)"

text \<open>The truth value of \<^verbatim>\<open>if (v)\<close>.\<close>

fun truthy :: "jsval \<Rightarrow> bool" where
  "truthy JUndefined = False"
| "truthy JNull = False"
| "truthy (JBool b) = b"
| "truthy (JNum n) = (n \<noteq> 0)"
| "truthy (JError m) = True"


section \<open>Board\<close>

text \<open>
  \<^verbatim>\<open>minesweeper.Board\<close>: the two dimensions and the array \<^verbatim>\<open>data_\<close>. A JavaScript array
  is an object keyed by integers together with its \<^verbatim>\<open>length\<close>: \<open>data\<close> gives what each
  key reads as and \<open>data_length\<close> is the length, which a write at a key at or beyond it
  extends. (A trailing underscore is not a name in Isabelle: \<^verbatim>\<open>data_\<close>, \<^verbatim>\<open>getIndex_\<close>,
  \<^verbatim>\<open>setMines_\<close>, \<^verbatim>\<open>incrementAdjacentTiles_\<close> and \<^verbatim>\<open>initBoard_\<close> lose theirs.)
\<close>

record Board =
  rowCount :: int
  colCount :: int
  data :: "int \<Rightarrow> tile"
  data_length :: nat

text \<open>
  The constructor: \<^verbatim>\<open>opt_cols || rows\<close> takes \<^verbatim>\<open>rows\<close> when the second argument is
  absent or \<open>0\<close>.
\<close>

definition new_Board :: "int \<Rightarrow> int option \<Rightarrow> Board" where
  "new_Board rows opt_cols =
     \<lparr>rowCount = rows,
      colCount = (case opt_cols of None \<Rightarrow> rows | Some cols \<Rightarrow> if cols = 0 then rows else cols),
      data = (\<lambda>_. None),
      data_length = 0\<rparr>"

definition getIndex :: "'a Board_scheme \<Rightarrow> int \<Rightarrow> int \<Rightarrow> int" where
  "getIndex b row col = row * colCount b + col"

definition setTile :: "'a Board_scheme \<Rightarrow> int \<Rightarrow> int \<Rightarrow> tile \<Rightarrow> 'a Board_scheme" where
  "setTile b row col t =
     (let i = getIndex b row col in
      b\<lparr>data := (data b)(i := t),
        data_length := (if 0 \<le> i \<and> int (data_length b) \<le> i then nat i + 1 else data_length b)\<rparr>)"

definition getTile :: "'a Board_scheme \<Rightarrow> int \<Rightarrow> int \<Rightarrow> tile" where
  "getTile b row col = data b (getIndex b row col)"

text \<open>
  A callback runs on the program state \<open>'s\<close> (the scope, and the variables its closure
  captured), receives row, column and tile, and gives back its return value and the new
  state; \<open>None\<close> stands for a call that does not return. The board under iteration is part
  of the state, selected by \<open>this\<close>: the loops read it again at every step, as the source
  reads \<^verbatim>\<open>this.rowCount\<close>, \<^verbatim>\<open>this.colCount\<close> and \<^verbatim>\<open>this.getTile(r, c)\<close>.
\<close>

type_synonym 's callback = "'s \<Rightarrow> int \<Rightarrow> int \<Rightarrow> tile \<Rightarrow> (jsval \<times> 's) option"

text \<open>
  \<^verbatim>\<open>forEachTile\<close>, inner loop \<^verbatim>\<open>for (c; c < this.colCount; c++)\<close>. \<open>Some (False, s)\<close> is
  the \<^verbatim>\<open>return false\<close> that leaves both loops; \<open>Some (True, s)\<close> is the inner loop
  running to its end. A loop whose bound the callback keeps raising never returns.
\<close>

partial_function (option) forEachTile_cols ::
  "('s \<Rightarrow> 'a Board_scheme) \<Rightarrow> 's callback \<Rightarrow> int \<Rightarrow> int \<Rightarrow> 's \<Rightarrow> (bool \<times> 's) option" where
  "forEachTile_cols this callback r c s =
     (if c < colCount (this s) then
        (case callback s r c (getTile (this s) r c) of
           None \<Rightarrow> None
         | Some (ret, s') \<Rightarrow>
             if ret = JBool False then Some (False, s')
             else forEachTile_cols this callback r (c + 1) s')
      else Some (True, s))"

text \<open>Outer loop \<^verbatim>\<open>for (r; r < this.rowCount; r++)\<close>, then \<^verbatim>\<open>return true\<close>.\<close>

partial_function (option) forEachTile_rows ::
  "('s \<Rightarrow> 'a Board_scheme) \<Rightarrow> 's callback \<Rightarrow> int \<Rightarrow> 's \<Rightarrow> (bool \<times> 's) option" where
  "forEachTile_rows this callback r s =
     (if r < rowCount (this s) then
        (case forEachTile_cols this callback r 0 s of
           None \<Rightarrow> None
         | Some (finished, s') \<Rightarrow>
             if finished then forEachTile_rows this callback (r + 1) s'
             else Some (False, s'))
      else Some (True, s))"

declare forEachTile_cols.simps [code]
declare forEachTile_rows.simps [code]

definition forEachTile ::
  "('s \<Rightarrow> 'a Board_scheme) \<Rightarrow> 's callback \<Rightarrow> 's \<Rightarrow> (bool \<times> 's) option" where
  "forEachTile this callback s = forEachTile_rows this callback 0 s"

text \<open>
  \<^verbatim>\<open>forEachBoundaryTile\<close>: the four bounds are computed once, before the loops, so both
  loops are bounded; the centre cell is skipped.
\<close>

function forEachBoundaryTile_cols ::
  "('s \<Rightarrow> 'a Board_scheme) \<Rightarrow> int \<Rightarrow> int \<Rightarrow> 's callback \<Rightarrow> int \<Rightarrow> int \<Rightarrow> int \<Rightarrow> 's
     \<Rightarrow> (bool \<times> 's) option" where
  "forEachBoundaryTile_cols this row col callback maxCol r c s =
     (if c < maxCol then
        (if r \<noteq> row \<or> c \<noteq> col then
           (case callback s r c (getTile (this s) r c) of
              None \<Rightarrow> None
            | Some (ret, s') \<Rightarrow>
                if ret = JBool False then Some (False, s')
                else forEachBoundaryTile_cols this row col callback maxCol r (c + 1) s')
         else forEachBoundaryTile_cols this row col callback maxCol r (c + 1) s)
      else Some (True, s))"
  by pat_completeness auto
termination
  by (relation "measure (\<lambda>(this, row, col, callback, maxCol, r, c, s). nat (maxCol - c))") auto

function forEachBoundaryTile_rows ::
  "('s \<Rightarrow> 'a Board_scheme) \<Rightarrow> int \<Rightarrow> int \<Rightarrow> 's callback \<Rightarrow> int \<Rightarrow> int \<Rightarrow> int \<Rightarrow> int \<Rightarrow> 's
     \<Rightarrow> (bool \<times> 's) option" where
  "forEachBoundaryTile_rows this row col callback maxRow minCol maxCol r s =
     (if r < maxRow then
        (case forEachBoundaryTile_cols this row col callback maxCol r minCol s of
           None \<Rightarrow> None
         | Some (finished, s') \<Rightarrow>
             if finished
             then forEachBoundaryTile_rows this row col callback maxRow minCol maxCol (r + 1) s'
             else Some (False, s'))
      else Some (True, s))"
  by pat_completeness auto
termination
  by (relation "measure (\<lambda>(this, row, col, callback, maxRow, minCol, maxCol, r, s).
        nat (maxRow - r))") auto

definition forEachBoundaryTile ::
  "('s \<Rightarrow> 'a Board_scheme) \<Rightarrow> int \<Rightarrow> int \<Rightarrow> 's callback \<Rightarrow> 's \<Rightarrow> (bool \<times> 's) option" where
  "forEachBoundaryTile this row col callback s =
     (let minRow = max (row - 1) 0;
          maxRow = min (row + 2) (rowCount (this s));
          minCol = max (col - 1) 0;
          maxCol = min (col + 2) (colCount (this s))
      in forEachBoundaryTile_rows this row col callback maxRow minCol maxCol minRow s)"

text \<open>
  \<^verbatim>\<open>shuffle\<close> (Fisher-Yates). \<^verbatim>\<open>Math.floor(Math.random() * (i + 1))\<close> is some integer
  of \<open>[0, i]\<close>: the draws are a parameter, \<open>rnd i\<close> being the draw made at index \<open>i\<close>,
  reduced into that range. Each index is visited once, so every run of the source is the
  run of the model on some \<open>rnd\<close>. \<^verbatim>\<open>while (--i)\<close> decrements and then tests; the loop is
  entered with \<open>i\<close> the length, which the guard before it has made positive.
\<close>

function shuffle_while :: "(nat \<Rightarrow> nat) \<Rightarrow> nat \<Rightarrow> 'a Board_scheme \<Rightarrow> 'a Board_scheme" where
  "shuffle_while rnd i b =
     (let i' = i - 1 in
      if i' = 0 then b
      else
        let j = rnd i' mod (i' + 1);
            tempi = data b (int i');
            tempj = data b (int j);
            b1 = b\<lparr>data := (data b)(int i' := tempj)\<rparr>;
            b2 = b1\<lparr>data := (data b1)(int j := tempi)\<rparr>
        in shuffle_while rnd i' b2)"
  by pat_completeness auto
termination
  by (relation "measure (\<lambda>(rnd, i, b). i)") auto

definition shuffle :: "(nat \<Rightarrow> nat) \<Rightarrow> 'a Board_scheme \<Rightarrow> jsval \<times> 'a Board_scheme" where
  "shuffle rnd b =
     (let i = data_length b in
      if i = 0 then (JBool False, b) else (JUndefined, shuffle_while rnd i b))"


section \<open>MineBoard\<close>

record MineBoard = Board +
  mineCount :: int

text \<open>
  \<^verbatim>\<open>incrementAdjacentTiles_\<close>: its callback uses the board's own \<^verbatim>\<open>setTile\<close> and
  returns nothing. (The anonymous callbacks of the source are given names here.)
\<close>

definition incrementAdjacentTiles_callback :: "MineBoard callback" where
  "incrementAdjacentTiles_callback s r c t =
     Some (JUndefined,
           if tile_ge t 0 then setTile s r c (map_option (\<lambda>n. n + 1) t) else s)"

definition incrementAdjacentTiles :: "MineBoard \<Rightarrow> int \<Rightarrow> int \<Rightarrow> MineBoard option" where
  "incrementAdjacentTiles b row col =
     map_option snd (forEachBoundaryTile (\<lambda>s. s) row col incrementAdjacentTiles_callback b)"

text \<open>
  \<^verbatim>\<open>setMines_\<close>. The first callback decrements the parameter variable \<^verbatim>\<open>mineCount\<close> it
  captured: the state of that pass is the board with that variable.
\<close>

definition setMines_clear :: "(MineBoard \<times> int) callback" where
  "setMines_clear = (\<lambda>(s, mineCount) r c t.
     if mineCount > 0 then Some (JUndefined, (setTile s r c (Some MINE), mineCount - 1))
     else Some (JUndefined, (setTile s r c (Some 0), mineCount)))"

definition setMines_count :: "MineBoard callback" where
  "setMines_count s r c t =
     (if t = Some MINE then map_option (Pair JUndefined) (incrementAdjacentTiles s r c)
      else Some (JUndefined, s))"

definition setMines :: "(nat \<Rightarrow> nat) \<Rightarrow> MineBoard \<Rightarrow> int \<Rightarrow> MineBoard option" where
  "setMines rnd b mineCount0 =
     (case forEachTile fst setMines_clear (b, mineCount0) of
        None \<Rightarrow> None
      | Some (_, (b1, _)) \<Rightarrow>
          let b2 = snd (shuffle rnd b1) in
          map_option snd (forEachTile (\<lambda>s. s) setMines_count b2))"

definition new_MineBoard :: "(nat \<Rightarrow> nat) \<Rightarrow> int \<Rightarrow> int \<Rightarrow> int option \<Rightarrow> MineBoard option" where
  "new_MineBoard rnd mines rows opt_cols =
     setMines rnd (Board.extend (new_Board rows opt_cols) \<lparr>mineCount = mines\<rparr>) mines"


section \<open>UserBoard\<close>

record UserBoard = Board +
  flagCount :: int
  unknownCount :: int

text \<open>The override of \<^verbatim>\<open>setTile\<close>: the counters follow the old and the new value.\<close>

definition UserBoard_setTile :: "UserBoard \<Rightarrow> int \<Rightarrow> int \<Rightarrow> tile \<Rightarrow> UserBoard" where
  "UserBoard_setTile b row col t =
     (let b1 = (if getTile b row col = Some FLAG then b\<lparr>flagCount := flagCount b - 1\<rparr>
                else if getTile b row col = Some UNKNOWN then b\<lparr>unknownCount := unknownCount b - 1\<rparr>
                else b);
          b2 = setTile b1 row col t
      in if getTile b2 row col = Some FLAG then b2\<lparr>flagCount := flagCount b2 + 1\<rparr>
         else if getTile b2 row col = Some UNKNOWN then b2\<lparr>unknownCount := unknownCount b2 + 1\<rparr>
         else b2)"

definition initBoard_callback :: "UserBoard callback" where
  "initBoard_callback s r c t = Some (JUndefined, UserBoard_setTile s r c (Some UNKNOWN))"

definition initBoard :: "UserBoard \<Rightarrow> UserBoard option" where
  "initBoard b = map_option snd (forEachTile (\<lambda>s. s) initBoard_callback b)"

definition new_UserBoard :: "int \<Rightarrow> int option \<Rightarrow> UserBoard option" where
  "new_UserBoard rows opt_cols =
     initBoard (Board.extend (new_Board rows opt_cols) \<lparr>flagCount = 0, unknownCount = 0\<rparr>)"

definition completed :: "UserBoard \<Rightarrow> bool" where
  "completed b = (unknownCount b = 0)"


section \<open>Game\<close>

record Game =
  mineBoard :: MineBoard
  userBoard :: UserBoard

definition new_Game :: "(nat \<Rightarrow> nat) \<Rightarrow> int \<Rightarrow> int \<Rightarrow> Game option" where
  "new_Game rnd mines size' =
     (case new_MineBoard rnd mines size' None of
        None \<Rightarrow> None
      | Some mb \<Rightarrow>
          (case new_UserBoard size' None of
             None \<Rightarrow> None
           | Some ub \<Rightarrow> Some \<lparr>mineBoard = mb, userBoard = ub\<rparr>))"

text \<open>
  \<^verbatim>\<open>revealTile\<close> calls itself through \<^verbatim>\<open>forEachBoundaryTile\<close>. The first argument bounds
  the depth of these calls: with none left the call does not return (\<open>None\<close>). The bare
  \<^verbatim>\<open>return\<close> gives \<^verbatim>\<open>undefined\<close>; the value of \<^verbatim>\<open>forEachBoundaryTile\<close> is dropped.
\<close>

fun revealTile :: "nat \<Rightarrow> Game \<Rightarrow> int \<Rightarrow> int \<Rightarrow> (jsval \<times> Game) option" where
  "revealTile 0 g row col = None"
| "revealTile (Suc fuel) g row col =
     (let userTile = getTile (userBoard g) row col in
      if userTile \<noteq> Some UNKNOWN \<and> userTile \<noteq> Some FLAG then Some (JUndefined, g)
      else
        let mineTile = getTile (mineBoard g) row col;
            g1 = g\<lparr>userBoard := UserBoard_setTile (userBoard g) row col mineTile\<rparr>
        in if mineTile = Some MINE then Some (JError ''mine revealed'', g1)
           else if mineTile = Some 0 then
             (case forEachBoundaryTile mineBoard row col
                     (\<lambda>s r c t. revealTile fuel s r c) g1 of
                None \<Rightarrow> None
              | Some (_, g2) \<Rightarrow> Some (JNull, g2))
           else Some (JNull, g1))"

text \<open>
  \<^verbatim>\<open>revealUnknownAdjacent\<close>. The first callback increments the captured variable
  \<^verbatim>\<open>adjacentFlags\<close> and returns nothing; the second returns the boolean
  \<^verbatim>\<open>this.revealTile(r, c) == null\<close> for an \<^verbatim>\<open>UNKNOWN\<close> tile and nothing otherwise.
\<close>

definition countFlags_callback :: "(Game \<times> int) callback" where
  "countFlags_callback = (\<lambda>(s, adjacentFlags) r c t.
     Some (JUndefined, if t = Some FLAG then (s, adjacentFlags + 1) else (s, adjacentFlags)))"

definition revealUnknown_callback :: "nat \<Rightarrow> Game callback" where
  "revealUnknown_callback fuel s r c userTile =
     (if userTile = Some UNKNOWN then
        (case revealTile fuel s r c of
           None \<Rightarrow> None
         | Some (ret, s') \<Rightarrow> Some (JBool (loosely_null ret), s'))
      else Some (JUndefined, s))"

definition revealUnknownAdjacent :: "nat \<Rightarrow> Game \<Rightarrow> int \<Rightarrow> int \<Rightarrow> (jsval \<times> Game) option" where
  "revealUnknownAdjacent fuel g row col =
     (let t = getTile (userBoard g) row col in
      if tile_lt t 0 then Some (JNull, g)
      else
        (case forEachBoundaryTile (\<lambda>s. userBoard (fst s)) row col countFlags_callback (g, 0) of
           None \<Rightarrow> None
         | Some (_, (g1, adjacentFlags)) \<Rightarrow>
             if tile_gt t adjacentFlags then Some (JNull, g1)
             else
               (case forEachBoundaryTile userBoard row col (revealUnknown_callback fuel) g1 of
                  None \<Rightarrow> None
                | Some (success, g2) \<Rightarrow>
                    if success then Some (JNull, g2)
                    else Some (JError ''adajcent mine revealed'', g2))))"

definition flagTile :: "Game \<Rightarrow> int \<Rightarrow> int \<Rightarrow> Game" where
  "flagTile g row col =
     (if getTile (userBoard g) row col = Some UNKNOWN
      then g\<lparr>userBoard := UserBoard_setTile (userBoard g) row col (Some FLAG)\<rparr>
      else if getTile (userBoard g) row col = Some FLAG
      then g\<lparr>userBoard := UserBoard_setTile (userBoard g) row col (Some UNKNOWN)\<rparr>
      else g)"

definition validate_callback :: "Game callback" where
  "validate_callback s r c mineTile =
     (let userTile = getTile (userBoard s) r c in
      if mineTile = Some MINE \<or> userTile = Some FLAG
      then Some (JBool (mineTile = Some MINE \<and> userTile = Some FLAG), s)
      else Some (JUndefined, s))"

definition validate :: "Game \<Rightarrow> bool option" where
  "validate g =
     (if flagCount (userBoard g) \<noteq> mineCount (mineBoard g) then Some False
      else map_option fst (forEachTile mineBoard validate_callback g))"


declare forEachBoundaryTile_cols.simps [simp del]
declare forEachBoundaryTile_rows.simps [simp del]
declare shuffle_while.simps [simp del]


section \<open>The words of the specification\<close>

text \<open>
  The cells of a grid in row-major order, and the neighbourhood of a cell: the cells of
  the grid in the 3x3 square around it, the centre left out, in the same order.
\<close>

definition cells :: "'a Board_scheme \<Rightarrow> (int \<times> int) list" where
  "cells b = concat (map (\<lambda>r. map (Pair r) [0..colCount b - 1]) [0..rowCount b - 1])"

definition adjacent :: "int \<Rightarrow> int \<Rightarrow> int \<Rightarrow> int \<Rightarrow> bool" where
  "adjacent row col r c \<longleftrightarrow>
     row - 1 \<le> r \<and> r \<le> row + 1 \<and> col - 1 \<le> c \<and> c \<le> col + 1 \<and> (r \<noteq> row \<or> c \<noteq> col)"

definition neighbours :: "'a Board_scheme \<Rightarrow> int \<Rightarrow> int \<Rightarrow> (int \<times> int) list" where
  "neighbours b row col = filter (\<lambda>(r, c). adjacent row col r c) (cells b)"

text \<open>
  The iteration contract: the cells are visited in the order of the list, each callback
  receiving the tile its cell holds at that moment; the visit stops, with \<open>False\<close>, at
  the first callback that returns the literal \<^verbatim>\<open>false\<close>, and ends with \<open>True\<close> otherwise.
\<close>

fun visit ::
  "(int \<times> int) list \<Rightarrow> ('s \<Rightarrow> 'a Board_scheme) \<Rightarrow> 's callback \<Rightarrow> 's \<Rightarrow> (bool \<times> 's) option" where
  "visit [] this callback s = Some (True, s)"
| "visit ((r, c) # ps) this callback s =
     (case callback s r c (getTile (this s) r c) of
        None \<Rightarrow> None
      | Some (ret, s') \<Rightarrow>
          if ret = JBool False then Some (False, s') else visit ps this callback s')"

text \<open>The dimensions are fixed for the grid's lifetime: no callback changes them.\<close>

definition keeps_dims :: "('s \<Rightarrow> 'a Board_scheme) \<Rightarrow> 's callback \<Rightarrow> bool" where
  "keeps_dims this callback \<longleftrightarrow>
     (\<forall>s r c t ret s'. callback s r c t = Some (ret, s') \<longrightarrow>
        rowCount (this s') = rowCount (this s) \<and> colCount (this s') = colCount (this s))"

text \<open>Some invocation of the callback on a cell returned the literal \<^verbatim>\<open>false\<close>, leaving \<open>s'\<close>.\<close>

definition returned_false :: "('s \<Rightarrow> 'a Board_scheme) \<Rightarrow> 's callback \<Rightarrow> 's \<Rightarrow> bool" where
  "returned_false this callback s' \<longleftrightarrow>
     (\<exists>s0 r c. callback s0 r c (getTile (this s0) r c) = Some (JBool False, s'))"



text \<open>The coordinates callers are required to stay within.\<close>

definition in_bounds :: "'a Board_scheme \<Rightarrow> int \<Rightarrow> int \<Rightarrow> bool" where
  "in_bounds b r c \<longleftrightarrow> 0 \<le> r \<and> r < rowCount b \<and> 0 \<le> c \<and> c < colCount b"


text \<open>
  What every JavaScript array satisfies: nothing is stored at or beyond its length.
\<close>

definition array_wf :: "'a Board_scheme \<Rightarrow> bool" where
  "array_wf b \<longleftrightarrow> (\<forall>i. int (data_length b) \<le> i \<longrightarrow> data b i = None)"


text \<open>
  The number of cells whose tile satisfies a predicate; the counters of a player grid
  agree with the grid; the cells revealed are those neither flagged nor unknown.
\<close>

definition count_tiles :: "'a Board_scheme \<Rightarrow> (tile \<Rightarrow> bool) \<Rightarrow> nat" where
  "count_tiles b P = length (filter (\<lambda>(r, c). P (getTile b r c)) (cells b))"

definition counters_ok :: "UserBoard \<Rightarrow> bool" where
  "counters_ok b \<longleftrightarrow>
     flagCount b = int (count_tiles b (\<lambda>t. t = Some FLAG)) \<and>
     unknownCount b = int (count_tiles b (\<lambda>t. t = Some UNKNOWN))"

definition revealedCount :: "'a Board_scheme \<Rightarrow> nat" where
  "revealedCount b = count_tiles b (\<lambda>t. t \<noteq> Some FLAG \<and> t \<noteq> Some UNKNOWN)"


text \<open>A sequence of \<^verbatim>\<open>setTile\<close> writes on a player grid.\<close>

fun apply_writes :: "UserBoard \<Rightarrow> (int \<times> int \<times> tile) list \<Rightarrow> UserBoard" where
  "apply_writes b [] = b"
| "apply_writes b ((r, c, t) # ws) = apply_writes (UserBoard_setTile b r c t) ws"


text \<open>The player grid as the constructor leaves it before \<^verbatim>\<open>initBoard_\<close> runs.\<close>

definition blank_UserBoard :: "int \<Rightarrow> int option \<Rightarrow> UserBoard" where
  "blank_UserBoard rows opt_cols = Board.extend (new_Board rows opt_cols) \<lparr>flagCount = 0, unknownCount = 0\<rparr>"


text \<open>
  Example states. \<open>array_of xs\<close> is the array holding exactly the elements \<open>xs\<close>.
  \<open>game_2x2\<close> is a fresh game of size 2 with its one mine at \<open>(0, 0)\<close>;
  \<open>game_2x2_revealed\<close> is that game after \<open>(0, 1)\<close> was revealed.
\<close>

definition array_of :: "tile list \<Rightarrow> int \<Rightarrow> tile" where
  "array_of xs i = (if 0 \<le> i \<and> i < int (length xs) then xs ! nat i else None)"

definition game_2x2 :: Game where
  "game_2x2 =
     \<lparr>mineBoard = \<lparr>rowCount = 2, colCount = 2,
                    data = array_of [Some MINE, Some 1, Some 1, Some 1],
                    data_length = 4, mineCount = 1\<rparr>,
      userBoard = \<lparr>rowCount = 2, colCount = 2,
                    data = array_of [Some UNKNOWN, Some UNKNOWN, Some UNKNOWN, Some UNKNOWN],
                    data_length = 4, flagCount = 0, unknownCount = 4\<rparr>\<rparr>"

definition game_2x2_revealed :: Game where
  "game_2x2_revealed =
     \<lparr>mineBoard = \<lparr>rowCount = 2, colCount = 2,
                    data = array_of [Some MINE, Some 1, Some 1, Some 1],
                    data_length = 4, mineCount = 1\<rparr>,
      userBoard = \<lparr>rowCount = 2, colCount = 2,
                    data = array_of [Some UNKNOWN, Some 1, Some UNKNOWN, Some UNKNOWN],
                    data_length = 4, flagCount = 0, unknownCount = 3\<rparr>\<rparr>"

text \<open>
  The tiles of a grid in row-major order, and the number of the (up to 8) neighbours of a
  cell that hold a mine.
\<close>

definition tiles :: "'a Board_scheme \<Rightarrow> tile list" where
  "tiles b = map (\<lambda>(r, c). getTile b r c) (cells b)"

definition mine_neighbours :: "'a Board_scheme \<Rightarrow> int \<Rightarrow> int \<Rightarrow> nat" where
  "mine_neighbours b row col =
     length (filter (\<lambda>(r, c). getTile b r c = Some MINE) (neighbours b row col))"



section \<open>The words of the specification: play\<close>

text \<open>
  A cell of the player grid is unrevealed while it holds \<^verbatim>\<open>UNKNOWN\<close> or \<^verbatim>\<open>FLAG\<close>: the test
  with which \<^verbatim>\<open>revealTile\<close> begins.
\<close>

definition unrevealed :: "'a Board_scheme \<Rightarrow> int \<Rightarrow> int \<Rightarrow> bool" where
  "unrevealed b r c \<longleftrightarrow> getTile b r c = Some UNKNOWN \<or> getTile b r c = Some FLAG"

text \<open>The one write of a reveal: the player grid takes the solution's value at the cell.\<close>

definition reveal_write :: "Game \<Rightarrow> int \<Rightarrow> int \<Rightarrow> Game" where
  "reveal_write g row col =
     g\<lparr>userBoard := UserBoard_setTile (userBoard g) row col (getTile (mineBoard g) row col)\<rparr>"

text \<open>
  Revealing the cells of a list one after the other, whatever each reveal returns. It returns
  when every reveal does.
\<close>

fun reveal_all :: "nat \<Rightarrow> (int \<times> int) list \<Rightarrow> Game \<Rightarrow> Game option" where
  "reveal_all fuel [] g = Some g"
| "reveal_all fuel ((r, c) # ps) g =
     (case revealTile fuel g r c of None \<Rightarrow> None | Some (ret, g') \<Rightarrow> reveal_all fuel ps g')"

text \<open>The two grids of a game have the same dimensions.\<close>

definition same_dims :: "Game \<Rightarrow> bool" where
  "same_dims g \<longleftrightarrow> rowCount (userBoard g) = rowCount (mineBoard g)
     \<and> colCount (userBoard g) = colCount (mineBoard g)"

text \<open>The number of unrevealed cells: it bounds the depth of the calls of a reveal.\<close>

definition hidden_count :: "'a Board_scheme \<Rightarrow> nat" where
  "hidden_count b = count_tiles b (\<lambda>t. t = Some UNKNOWN \<or> t = Some FLAG)"

text \<open>
  The connected region of \<open>0\<close>-valued cells of a grid that contains the cell \<open>(row, col)\<close>: the
  least set holding that cell, when it is a cell of the grid valued \<open>0\<close>, and every \<open>0\<close>-valued
  cell of the grid adjacent (diagonals included) to one of its members. Being closed under that
  step it is the maximal such region.
\<close>

inductive_set zero_region :: "'a Board_scheme \<Rightarrow> int \<Rightarrow> int \<Rightarrow> (int \<times> int) set"
  for b :: "'a Board_scheme" and row col :: int where
  start: "in_bounds b row col \<Longrightarrow> getTile b row col = Some 0 \<Longrightarrow> (row, col) \<in> zero_region b row col"
| step: "(r, c) \<in> zero_region b row col \<Longrightarrow> adjacent r c r' c' \<Longrightarrow> in_bounds b r' c' \<Longrightarrow>
     getTile b r' c' = Some 0 \<Longrightarrow> (r', c') \<in> zero_region b row col"

text \<open>The start cell and every cell of the grid adjacent to a cell of the region.\<close>

definition spread :: "'a Board_scheme \<Rightarrow> int \<Rightarrow> int \<Rightarrow> (int \<times> int) set" where
  "spread b row col =
     insert (row, col)
       {(r', c'). in_bounds b r' c' \<and> (\<exists>(r, c) \<in> zero_region b row col. adjacent r c r' c')}"

text \<open>
  The ring around the region: the cells of the grid adjacent to a cell of the region that
  hold neither \<open>0\<close> nor a mine.
\<close>

definition ring :: "'a Board_scheme \<Rightarrow> int \<Rightarrow> int \<Rightarrow> (int \<times> int) set" where
  "ring b row col =
     {(r', c'). in_bounds b r' c' \<and> getTile b r' c' \<noteq> Some 0 \<and> getTile b r' c' \<noteq> Some MINE
        \<and> (\<exists>(r, c) \<in> zero_region b row col. adjacent r c r' c')}"

text \<open>A solution grid holds neither \<^verbatim>\<open>UNKNOWN\<close> nor \<^verbatim>\<open>FLAG\<close>.\<close>

definition solution_wf :: "'a Board_scheme \<Rightarrow> bool" where
  "solution_wf b \<longleftrightarrow> (\<forall>(r, c) \<in> set (cells b). \<not> unrevealed b r c)"

text \<open>
  The adjacency invariant of a solution grid: every cell is a mine or holds the number of its
  neighbours that are mines.
\<close>

definition adjacency_ok :: "'a Board_scheme \<Rightarrow> bool" where
  "adjacency_ok b \<longleftrightarrow>
     (\<forall>(r, c) \<in> set (cells b).
        getTile b r c = Some MINE \<or> getTile b r c = Some (int (mine_neighbours b r c)))"

text \<open>Every revealed cell of the player grid shows the solution's value.\<close>

definition consistent :: "Game \<Rightarrow> bool" where
  "consistent g \<longleftrightarrow>
     (\<forall>(r, c) \<in> set (cells (mineBoard g)).
        unrevealed (userBoard g) r c \<or> getTile (userBoard g) r c = getTile (mineBoard g) r c)"

text \<open>
  Every cell showing \<open>0\<close> has all its neighbours revealed, the cells of \<open>A\<close> (those whose
  reveal is still running) apart.
\<close>

definition closed_except :: "(int \<times> int) set \<Rightarrow> Game \<Rightarrow> bool" where
  "closed_except A g \<longleftrightarrow>
     (\<forall>(r, c) \<in> set (cells (mineBoard g)). (r, c) \<notin> A \<longrightarrow> getTile (userBoard g) r c = Some 0 \<longrightarrow>
        (\<forall>(r', c') \<in> set (neighbours (mineBoard g) r c). \<not> unrevealed (userBoard g) r' c'))"

text \<open>What holds of a game between two calls of its methods.\<close>

definition game_inv :: "Game \<Rightarrow> bool" where
  "game_inv g \<longleftrightarrow> same_dims g \<and> adjacency_ok (mineBoard g) \<and> consistent g \<and> closed_except {} g"

text \<open>
  \<^verbatim>\<open>revealUnknownAdjacent\<close> in the words of the specification: with \<open>t\<close> the number the cell
  shows, nothing happens when \<open>t\<close> is negative or more than the number of flagged neighbours;
  otherwise the neighbours are taken in order, one that is \<^verbatim>\<open>UNKNOWN\<close> when its turn comes is
  revealed, and the first reveal that hits a mine ends the walk with failure, in the state
  that reveal left.
\<close>

definition flagged_neighbours :: "'a Board_scheme \<Rightarrow> int \<Rightarrow> int \<Rightarrow> nat" where
  "flagged_neighbours b row col =
     length (filter (\<lambda>(r, c). getTile b r c = Some FLAG) (neighbours b row col))"

fun chord_each :: "nat \<Rightarrow> (int \<times> int) list \<Rightarrow> Game \<Rightarrow> (bool \<times> Game) option" where
  "chord_each fuel [] g = Some (True, g)"
| "chord_each fuel ((r, c) # ps) g =
     (if getTile (userBoard g) r c = Some UNKNOWN then
        (case revealTile fuel g r c of
           None \<Rightarrow> None
         | Some (ret, g') \<Rightarrow>
             if ret = JError ''mine revealed'' then Some (False, g') else chord_each fuel ps g')
      else chord_each fuel ps g)"

definition chordReveal :: "nat \<Rightarrow> Game \<Rightarrow> int \<Rightarrow> int \<Rightarrow> int \<Rightarrow> (jsval \<times> Game) option" where
  "chordReveal fuel g row col t =
     (if t < 0 then Some (JNull, g)
      else if int (flagged_neighbours (userBoard g) row col) < t then Some (JNull, g)
      else (case chord_each fuel (neighbours (userBoard g) row col) g of
              None \<Rightarrow> None
            | Some (ok, g') \<Rightarrow> Some (if ok then JNull else JError ''adajcent mine revealed'', g')))"

text \<open>
  The states of a game: \<open>played g0 g\<close> when \<open>g\<close> is reached from \<open>g0\<close> by calls of
  \<^verbatim>\<open>revealTile\<close>, \<^verbatim>\<open>revealUnknownAdjacent\<close> and \<^verbatim>\<open>flagTile\<close> on cells of the grid, each of
  which returned. A fresh game has grids of the same dimensions, a solution grid that
  satisfies the adjacency invariant and a player grid with every cell \<^verbatim>\<open>UNKNOWN\<close>.
\<close>

inductive played :: "Game \<Rightarrow> Game \<Rightarrow> bool" for g0 :: Game where
  start: "played g0 g0"
| reveal: "played g0 g \<Longrightarrow> in_bounds (userBoard g) row col \<Longrightarrow>
     revealTile fuel g row col = Some (ret, g') \<Longrightarrow> played g0 g'"
| chord: "played g0 g \<Longrightarrow> in_bounds (userBoard g) row col \<Longrightarrow>
     revealUnknownAdjacent fuel g row col = Some (ret, g') \<Longrightarrow> played g0 g'"
| flag: "played g0 g \<Longrightarrow> in_bounds (userBoard g) row col \<Longrightarrow> played g0 (flagTile g row col)"

definition fresh_game :: "Game \<Rightarrow> bool" where
  "fresh_game g \<longleftrightarrow> same_dims g \<and> adjacency_ok (mineBoard g)
     \<and> (\<forall>(r, c) \<in> set (cells (userBoard g)). getTile (userBoard g) r c = Some UNKNOWN)"

text \<open>The counters of the player grid agree with the grid.\<close>

definition counters_inv :: "Game \<Rightarrow> bool" where
  "counters_inv g \<longleftrightarrow> same_dims g \<and> counters_ok (userBoard g)"

text \<open>
  \<open>game_1x4\<close>: a fresh game on one row of four cells, a mine in the first.
\<close>

definition game_1x4 :: Game where
  "game_1x4 =
     \<lparr>mineBoard = \<lparr>rowCount = 1, colCount = 4,
                    data = array_of [Some MINE, Some 1, Some 0, Some 0],
                    data_length = 4, mineCount = 1\<rparr>,
      userBoard = \<lparr>rowCount = 1, colCount = 4,
                    data = array_of [Some UNKNOWN, Some UNKNOWN, Some UNKNOWN, Some UNKNOWN],
                    data_length = 4, flagCount = 0, unknownCount = 4\<rparr>\<rparr>"

text \<open>
  \<open>game_2x3_flagged\<close>: a game of two rows and three columns, its mine at \<open>(1, 1)\<close>, with
  \<open>(0, 1)\<close> revealed and a flag on \<open>(0, 0)\<close>, where there is no mine. \<open>game_2x3_failed\<close> is
  the state \<^verbatim>\<open>revealUnknownAdjacent\<close> on \<open>(0, 1)\<close> leaves.
\<close>

definition game_2x3_flagged :: Game where
  "game_2x3_flagged =
     \<lparr>mineBoard = \<lparr>rowCount = 2, colCount = 3,
                    data = array_of [Some 1, Some 1, Some 1, Some 1, Some MINE, Some 1],
                    data_length = 6, mineCount = 1\<rparr>,
      userBoard = \<lparr>rowCount = 2, colCount = 3,
                    data = array_of [Some FLAG, Some 1, Some UNKNOWN, Some UNKNOWN, Some UNKNOWN,
                                     Some UNKNOWN],
                    data_length = 6, flagCount = 1, unknownCount = 4\<rparr>\<rparr>"

definition game_2x3_failed :: Game where
  "game_2x3_failed =
     \<lparr>mineBoard = \<lparr>rowCount = 2, colCount = 3,
                    data = array_of [Some 1, Some 1, Some 1, Some 1, Some MINE, Some 1],
                    data_length = 6, mineCount = 1\<rparr>,
      userBoard = \<lparr>rowCount = 2, colCount = 3,
                    data = array_of [Some FLAG, Some 1, Some 1, Some 1, Some MINE, Some UNKNOWN],
                    data_length = 6, flagCount = 1, unknownCount = 1\<rparr>\<rparr>"




text \<open>The cells the player has flagged, and the cells where the solution has a mine.\<close>

definition flag_cells :: "Game \<Rightarrow> (int \<times> int) set" where
  "flag_cells g = set (filter (\<lambda>(r, c). getTile (userBoard g) r c = Some FLAG) (cells (userBoard g)))"

definition mine_cells :: "Game \<Rightarrow> (int \<times> int) set" where
  "mine_cells g = set (filter (\<lambda>(r, c). getTile (mineBoard g) r c = Some MINE) (cells (mineBoard g)))"

text \<open>
  \<open>game_1x1_neg\<close>: the game of one cell built for a requested mine count of \<open>-1\<close>.
\<close>

definition game_1x1_neg :: Game where
  "game_1x1_neg =
     \<lparr>mineBoard = \<lparr>rowCount = 1, colCount = 1, data = array_of [Some 0],
                    data_length = 1, mineCount = - 1\<rparr>,
      userBoard = \<lparr>rowCount = 1, colCount = 1, data = array_of [Some UNKNOWN],
                    data_length = 1, flagCount = 0, unknownCount = 1\<rparr>\<rparr>"


section \<open>Cells and neighbourhoods\<close>

lemma set_cells:
  "set (cells b) = {(r, c). 0 \<le> r \<and> r < rowCount b \<and> 0 \<le> c \<and> c < colCount b}"
  by (auto simp: cells_def)

lemma distinct_cells: "distinct (cells b)"
  by (simp add: cells_def product_concat_map[symmetric] distinct_product)

lemma set_neighbours:
  "set (neighbours b row col) =
     {(r, c). 0 \<le> r \<and> r < rowCount b \<and> 0 \<le> c \<and> c < colCount b \<and> adjacent row col r c}"
  by (auto simp: neighbours_def set_cells)

lemma distinct_neighbours: "distinct (neighbours b row col)"
  by (simp add: neighbours_def distinct_cells)

lemma adjacent_sym: "adjacent row col r c \<longleftrightarrow> adjacent r c row col"
  by (auto simp: adjacent_def)

lemma filter_upto_range:
  "filter (\<lambda>x. lo \<le> x \<and> x \<le> hi) [a..b] = [max a lo..min b hi]"
proof (rule sorted_distinct_set_unique)
  show "sorted (filter (\<lambda>x. lo \<le> x \<and> x \<le> hi) [a..b])" by (simp add: sorted_wrt_filter)
  show "distinct (filter (\<lambda>x. lo \<le> x \<and> x \<le> hi) [a..b])" by simp
  show "sorted [max a lo..min b hi]" by simp
  show "distinct [max a lo..min b hi]" by simp
  show "set (filter (\<lambda>x. lo \<le> x \<and> x \<le> hi) [a..b]) = set [max a lo..min b hi]" by auto
qed

lemma concat_map_filter_nonempty:
  "(\<And>x. x \<in> set xs \<Longrightarrow> \<not> P x \<Longrightarrow> g x = []) \<Longrightarrow>
     concat (map g xs) = concat (map g (filter P xs))"
  by (induction xs) auto

text \<open>The neighbourhood is what the clipped bounds of \<^verbatim>\<open>forEachBoundaryTile\<close> enumerate.\<close>

lemma neighbours_clipped:
  "neighbours b row col =
     filter (\<lambda>(r, c). r \<noteq> row \<or> c \<noteq> col)
       (concat (map (\<lambda>r. map (Pair r) [max (col - 1) 0..min (col + 2) (colCount b) - 1])
                    [max (row - 1) 0..min (row + 2) (rowCount b) - 1]))"
proof -
  let ?C = "colCount b" and ?R = "rowCount b"
  let ?ne = "\<lambda>(r, c). r \<noteq> row \<or> c \<noteq> col"
  let ?G = "\<lambda>r. filter (\<lambda>(r, c). adjacent row col r c) (map (Pair r) [0..?C - 1])"
  let ?P = "\<lambda>r. row - 1 \<le> r \<and> r \<le> row + 1"
  let ?cs = "[max (col - 1) 0..min (col + 2) ?C - 1]"
  have cols: "?G r = filter ?ne (map (Pair r) ?cs)" if "?P r" for r
  proof -
    have "?G r = map (Pair r)
        (filter (\<lambda>c. (col - 1 \<le> c \<and> c \<le> col + 1) \<and> (r \<noteq> row \<or> c \<noteq> col)) [0..?C - 1])"
      using that by (simp add: filter_map o_def adjacent_def)
    also have "\<dots> = map (Pair r) (filter (\<lambda>c. r \<noteq> row \<or> c \<noteq> col)
                       (filter (\<lambda>c. col - 1 \<le> c \<and> c \<le> col + 1) [0..?C - 1]))"
      by (simp add: conj_commute)
    also have "filter (\<lambda>c. col - 1 \<le> c \<and> c \<le> col + 1) [0..?C - 1] = ?cs"
    proof -
      have "max 0 (col - 1) = max (col - 1) 0" "min (?C - 1) (col + 1) = min (col + 2) ?C - 1"
        by auto
      then show ?thesis by (simp only: filter_upto_range)
    qed
    finally show ?thesis by (simp add: filter_map o_def)
  qed
  have empty: "?G r = []" if "\<not> ?P r" for r
    using that by (auto simp: filter_empty_conv adjacent_def)
  have "neighbours b row col = concat (map ?G [0..?R - 1])"
    by (simp add: neighbours_def cells_def filter_concat o_def)
  also have "\<dots> = concat (map ?G (filter ?P [0..?R - 1]))"
    by (rule concat_map_filter_nonempty) (rule empty)
  also have "filter ?P [0..?R - 1] = [max (row - 1) 0..min (row + 2) ?R - 1]"
  proof -
    have "max 0 (row - 1) = max (row - 1) 0" "min (?R - 1) (row + 1) = min (row + 2) ?R - 1"
      by auto
    then show ?thesis by (simp only: filter_upto_range)
  qed
  also have "concat (map ?G [max (row - 1) 0..min (row + 2) ?R - 1])
             = concat (map (\<lambda>r. filter ?ne (map (Pair r) ?cs))
                           [max (row - 1) 0..min (row + 2) ?R - 1])"
    by (rule arg_cong[where f = concat], rule map_cong[OF refl], rule cols) auto
  finally show ?thesis by (simp add: filter_concat o_def)
qed


section \<open>The loops as visits\<close>

lemma visit_append:
  "visit (ps @ qs) this cb s =
     (case visit ps this cb s of
        None \<Rightarrow> None
      | Some (finished, s') \<Rightarrow> if finished then visit qs this cb s' else Some (False, s'))"
  by (induction ps arbitrary: s) (auto split: option.splits)

lemma visit_keeps_dims:
  "keeps_dims this cb \<Longrightarrow> visit ps this cb s = Some (b, s') \<Longrightarrow>
     rowCount (this s') = rowCount (this s) \<and> colCount (this s') = colCount (this s)"
proof (induction ps arbitrary: s)
  case Nil
  then show ?case by simp
next
  case (Cons p ps)
  obtain r c where p: "p = (r, c)" by (cases p)
  from Cons.prems(2) obtain ret s1 where
    cb: "cb s r c (getTile (this s) r c) = Some (ret, s1)"
    by (auto simp: p split: option.splits)
  from Cons.prems(1) cb
  have d: "rowCount (this s1) = rowCount (this s) \<and> colCount (this s1) = colCount (this s)"
    unfolding keeps_dims_def by blast
  show ?case
  proof (cases "ret = JBool False")
    case True
    with Cons.prems(2) cb p d show ?thesis by simp
  next
    case False
    with Cons.prems(2) cb p have "visit ps this cb s1 = Some (b, s')" by simp
    from Cons.IH[OF Cons.prems(1) this] d show ?thesis by simp
  qed
qed

lemma forEachTile_cols_visit:
  assumes "keeps_dims this cb"
  shows "forEachTile_cols this cb r c s = visit (map (Pair r) [c..colCount (this s) - 1]) this cb s"
proof (induction "nat (colCount (this s) - c)" arbitrary: c s)
  case 0
  then have "\<not> c < colCount (this s)" by simp
  then show ?case by (subst forEachTile_cols.simps) simp
next
  case (Suc n)
  then have lt: "c < colCount (this s)" by simp
  then have up: "[c..colCount (this s) - 1] = c # [c + 1..colCount (this s) - 1]"
    by (simp add: upto_rec1)
  show ?case
  proof (cases "cb s r c (getTile (this s) r c)")
    case None
    then show ?thesis using lt up by (subst forEachTile_cols.simps) simp
  next
    case (Some a)
    obtain ret s1 where a: "a = (ret, s1)" by (cases a)
    from assms Some a have d: "colCount (this s1) = colCount (this s)"
      unfolding keeps_dims_def by blast
    have "n = nat (colCount (this s1) - (c + 1))" using Suc.hyps(2) d by simp
    from Suc.hyps(1)[OF this] d
    have "forEachTile_cols this cb r (c + 1) s1
            = visit (map (Pair r) [c + 1..colCount (this s) - 1]) this cb s1" by simp
    then show ?thesis using lt up Some a by (subst forEachTile_cols.simps) simp
  qed
qed

lemma forEachTile_rows_visit:
  assumes "keeps_dims this cb"
  shows "forEachTile_rows this cb r s =
           visit (concat (map (\<lambda>r. map (Pair r) [0..colCount (this s) - 1])
                              [r..rowCount (this s) - 1])) this cb s"
proof (induction "nat (rowCount (this s) - r)" arbitrary: r s)
  case 0
  then have "\<not> r < rowCount (this s)" by simp
  then show ?case by (subst forEachTile_rows.simps) simp
next
  case (Suc n)
  then have lt: "r < rowCount (this s)" by simp
  then have up: "[r..rowCount (this s) - 1] = r # [r + 1..rowCount (this s) - 1]"
    by (simp add: upto_rec1)
  let ?row = "map (Pair r) [0..colCount (this s) - 1]"
  show ?case
  proof (cases "visit ?row this cb s")
    case None
    then show ?thesis using lt up
      by (subst forEachTile_rows.simps) (simp add: forEachTile_cols_visit[OF assms] visit_append)
  next
    case (Some a)
    obtain fin s1 where a: "a = (fin, s1)" by (cases a)
    from visit_keeps_dims[OF assms] Some a
    have d: "rowCount (this s1) = rowCount (this s)" "colCount (this s1) = colCount (this s)"
      by blast+
    have "n = nat (rowCount (this s1) - (r + 1))" using Suc.hyps(2) d by simp
    from Suc.hyps(1)[OF this] d
    have "forEachTile_rows this cb (r + 1) s1 =
            visit (concat (map (\<lambda>r. map (Pair r) [0..colCount (this s) - 1])
                               [r + 1..rowCount (this s) - 1])) this cb s1" by simp
    then show ?thesis using lt up Some a
      by (subst forEachTile_rows.simps) (simp add: forEachTile_cols_visit[OF assms] visit_append)
  qed
qed

lemma forEachTile_visit:
  "keeps_dims this cb \<Longrightarrow> forEachTile this cb s = visit (cells (this s)) this cb s"
  by (simp add: forEachTile_def cells_def forEachTile_rows_visit)

lemma forEachBoundaryTile_cols_visit:
  "forEachBoundaryTile_cols this row col cb maxCol r c s =
     visit (filter (\<lambda>(r, c). r \<noteq> row \<or> c \<noteq> col) (map (Pair r) [c..maxCol - 1])) this cb s"
proof (induction this row col cb maxCol r c s rule: forEachBoundaryTile_cols.induct)
  case (1 this row col cb maxCol r c s)
  show ?case
  proof (cases "c < maxCol")
    case False
    then show ?thesis by (subst forEachBoundaryTile_cols.simps) simp
  next
    case True
    then have up: "[c..maxCol - 1] = c # [c + 1..maxCol - 1]" by (simp add: upto_rec1)
    show ?thesis
    proof (cases "r \<noteq> row \<or> c \<noteq> col")
      case False
      with True up "1.IH"(2) show ?thesis
        by (subst forEachBoundaryTile_cols.simps) simp
    next
      case ne: True
      show ?thesis
      proof (cases "cb s r c (getTile (this s) r c)")
        case None
        with True ne up show ?thesis by (subst forEachBoundaryTile_cols.simps) auto
      next
        case (Some a)
        obtain ret s1 where a: "a = (ret, s1)" by (cases a)
        show ?thesis
        proof (cases "ret = JBool False")
          case True
          with \<open>c < maxCol\<close> ne up Some a show ?thesis
            by (subst forEachBoundaryTile_cols.simps) auto
        next
          case False
          from "1.IH"(1)[OF \<open>c < maxCol\<close> ne Some a[symmetric] False]
          show ?thesis using \<open>c < maxCol\<close> ne up Some a False
            by (subst forEachBoundaryTile_cols.simps) auto
        qed
      qed
    qed
  qed
qed

lemma forEachBoundaryTile_rows_visit:
  "forEachBoundaryTile_rows this row col cb maxRow minCol maxCol r s =
     visit (filter (\<lambda>(r, c). r \<noteq> row \<or> c \<noteq> col)
              (concat (map (\<lambda>r. map (Pair r) [minCol..maxCol - 1]) [r..maxRow - 1]))) this cb s"
proof (induction this row col cb maxRow minCol maxCol r s rule: forEachBoundaryTile_rows.induct)
  case (1 this row col cb maxRow minCol maxCol r s)
  show ?case
  proof (cases "r < maxRow")
    case False
    then show ?thesis by (subst forEachBoundaryTile_rows.simps) simp
  next
    case True
    then have up: "[r..maxRow - 1] = r # [r + 1..maxRow - 1]" by (simp add: upto_rec1)
    let ?row = "filter (\<lambda>(r, c). r \<noteq> row \<or> c \<noteq> col) (map (Pair r) [minCol..maxCol - 1])"
    show ?thesis
    proof (cases "visit ?row this cb s")
      case None
      with True up show ?thesis
        by (subst forEachBoundaryTile_rows.simps)
           (simp add: forEachBoundaryTile_cols_visit visit_append)
    next
      case (Some a)
      obtain fin s1 where a: "a = (fin, s1)" by (cases a)
      show ?thesis
      proof (cases fin)
        case False
        with True up Some a show ?thesis
          by (subst forEachBoundaryTile_rows.simps)
             (simp add: forEachBoundaryTile_cols_visit visit_append)
      next
        case fin: True
        have "forEachBoundaryTile_cols this row col cb maxCol r minCol s = Some (fin, s1)"
          using Some a by (simp add: forEachBoundaryTile_cols_visit)
        from "1.IH"[OF True this refl fin]
        show ?thesis using True up Some a fin
          by (subst forEachBoundaryTile_rows.simps)
             (simp add: forEachBoundaryTile_cols_visit visit_append)
      qed
    qed
  qed
qed

lemma forEachBoundaryTile_visit:
  "forEachBoundaryTile this row col cb s = visit (neighbours (this s) row col) this cb s"
  by (simp add: forEachBoundaryTile_def neighbours_clipped forEachBoundaryTile_rows_visit)

text \<open>
  Without any assumption on the callback: \<^verbatim>\<open>forEachTile\<close> returns \<^verbatim>\<open>false\<close> only from a
  callback that returned the literal \<^verbatim>\<open>false\<close>.
\<close>

lemma returned_falseI:
  "callback s0 r c (getTile (this s0) r c) = Some (JBool False, s') \<Longrightarrow>
     returned_false this callback s'"
  unfolding returned_false_def by blast

lemma forEachTile_cols_False:
  assumes "forEachTile_cols this cb r c s = Some y"
  shows "\<not> fst y \<longrightarrow> returned_false this cb (snd y)"
proof (rule forEachTile_cols.raw_induct
    [where P = "\<lambda>this cb r c s y. \<not> fst y \<longrightarrow> returned_false this cb (snd y)", OF _ assms],
    goal_cases)
  case (1 rec this cb r c s y)
  show ?case
  proof
    assume nf: "\<not> fst y"
    from "1"(2) nf have lt: "c < colCount (this s)" by (auto split: if_splits)
    from "1"(2) lt obtain ret s1 where cb: "cb s r c (getTile (this s) r c) = Some (ret, s1)"
      by (auto split: option.splits)
    show "returned_false this cb (snd y)"
    proof (cases "ret = JBool False")
      case True
      with "1"(2) lt cb have "y = (False, s1)" by simp
      with cb True show ?thesis by (auto intro: returned_falseI)
    next
      case False
      with "1"(2) lt cb have "rec this cb r (c + 1) s1 = Some y" by simp
      from "1"(1)[OF this] nf show ?thesis by simp
    qed
  qed
qed

lemma forEachTile_rows_False:
  assumes "forEachTile_rows this cb r s = Some y"
  shows "\<not> fst y \<longrightarrow> returned_false this cb (snd y)"
proof (rule forEachTile_rows.raw_induct
    [where P = "\<lambda>this cb r s y. \<not> fst y \<longrightarrow> returned_false this cb (snd y)", OF _ assms],
    goal_cases)
  case (1 rec this cb r s y)
  show ?case
  proof
    assume nf: "\<not> fst y"
    from "1"(2) nf have lt: "r < rowCount (this s)" by (auto split: if_splits)
    from "1"(2) lt obtain fin s1 where cols: "forEachTile_cols this cb r 0 s = Some (fin, s1)"
      by (auto split: option.splits)
    show "returned_false this cb (snd y)"
    proof (cases fin)
      case False
      with "1"(2) lt cols have "y = (False, s1)" by simp
      with forEachTile_cols_False[OF cols] False show ?thesis by simp
    next
      case True
      with "1"(2) lt cols have "rec this cb (r + 1) s1 = Some y" by simp
      from "1"(1)[OF this] nf show ?thesis by simp
    qed
  qed
qed

lemma forEachTile_False:
  "forEachTile this cb s = Some (False, s') \<Longrightarrow> returned_false this cb s'"
  using forEachTile_rows_False[of this cb 0 s "(False, s')"] by (simp add: forEachTile_def)

text \<open>What the contract says of a visit: its result, and how far it went.\<close>

lemma visit_False:
  "visit ps this cb s = Some (False, s') \<Longrightarrow> returned_false this cb s'"
proof (induction ps arbitrary: s)
  case Nil
  then show ?case by simp
next
  case (Cons p ps)
  obtain r c where p: "p = (r, c)" by (cases p)
  from Cons.prems obtain ret s1 where
    cb: "cb s r c (getTile (this s) r c) = Some (ret, s1)"
    by (auto simp: p split: option.splits)
  show ?case
  proof (cases "ret = JBool False")
    case True
    with Cons.prems cb p show ?thesis by (auto intro: returned_falseI)
  next
    case False
    with Cons.prems cb p have "visit ps this cb s1 = Some (False, s')" by simp
    then show ?thesis by (rule Cons.IH)
  qed
qed

lemma visit_never_false:
  "(\<And>s r c t. \<exists>ret s'. cb s r c t = Some (ret, s') \<and> ret \<noteq> JBool False) \<Longrightarrow>
     \<exists>s'. visit ps this cb s = Some (True, s')"
proof (induction ps arbitrary: s)
  case Nil
  then show ?case by simp
next
  case (Cons p ps)
  obtain r c where p: "p = (r, c)" by (cases p)
  from Cons.prems[of s r c "getTile (this s) r c"] obtain ret s1 where
    cb: "cb s r c (getTile (this s) r c) = Some (ret, s1)" "ret \<noteq> JBool False" by blast
  from Cons.IH[OF Cons.prems, of s1] cb p show ?case by simp
qed


section \<open>Writes on a board\<close>

lemma setTile_simps [simp]:
  "rowCount (setTile b r c t) = rowCount b"
  "colCount (setTile b r c t) = colCount b"
  "data (setTile b r c t) = (data b)(getIndex b r c := t)"
  "Board.more (setTile b r c t) = Board.more b"
  by (simp_all add: setTile_def Let_def)

lemma getIndex_setTile [simp]: "getIndex (setTile b r c t) r' c' = getIndex b r' c'"
  by (simp add: getIndex_def)

lemma getTile_setTile:
  "getTile (setTile b r c t) r' c' =
     (if getIndex b r' c' = getIndex b r c then t else getTile b r' c')"
  by (simp add: getTile_def)

lemma UserBoard_setTile_simps [simp]:
  "rowCount (UserBoard_setTile b r c t) = rowCount b"
  "colCount (UserBoard_setTile b r c t) = colCount b"
  "data (UserBoard_setTile b r c t) = (data b)(getIndex b r c := t)"
  "data_length (UserBoard_setTile b r c t) = data_length (setTile b r c t)"
  "flagCount (UserBoard_setTile b r c t) =
     flagCount b - of_bool (getTile b r c = Some FLAG) + of_bool (t = Some FLAG)"
  "unknownCount (UserBoard_setTile b r c t) =
     unknownCount b - of_bool (getTile b r c = Some UNKNOWN) + of_bool (t = Some UNKNOWN)"
  by (auto simp: UserBoard_setTile_def Let_def getTile_def setTile_def getIndex_def)

lemma getIndex_UserBoard_setTile [simp]:
  "getIndex (UserBoard_setTile b r c t) r' c' = getIndex b r' c'"
  by (simp add: getIndex_def)

lemma getTile_UserBoard_setTile:
  "getTile (UserBoard_setTile b r c t) r' c' =
     (if getIndex b r' c' = getIndex b r c then t else getTile b r' c')"
  by (simp add: getTile_def)

lemma flagTile_twice:
  assumes "array_wf (userBoard g)"
  shows "flagTile (flagTile g row col) row col = g"
proof -
  let ?b = "userBoard g" and ?i = "getIndex (userBoard g) row col"
  consider (u) "getTile ?b row col = Some UNKNOWN" | (f) "getTile ?b row col = Some FLAG"
    | (r) "getTile ?b row col \<noteq> Some UNKNOWN" "getTile ?b row col \<noteq> Some FLAG" by blast
  then show ?thesis
  proof cases
    case r
    then show ?thesis by (simp add: flagTile_def)
  next
    case u
    then have d: "data ?b ?i = Some UNKNOWN" by (simp add: getTile_def)
    with assms have len: "\<not> int (data_length ?b) \<le> ?i" by (auto simp: array_wf_def)
    have "UserBoard_setTile (UserBoard_setTile ?b row col (Some FLAG)) row col (Some UNKNOWN) = ?b"
      using d len u
      by (intro UserBoard.equality) (auto simp: setTile_def Let_def fun_upd_idem getTile_def)
    then show ?thesis using u by (simp add: flagTile_def getTile_UserBoard_setTile)
  next
    case f
    then have d: "data ?b ?i = Some FLAG" by (simp add: getTile_def)
    with assms have len: "\<not> int (data_length ?b) \<le> ?i" by (auto simp: array_wf_def)
    have "UserBoard_setTile (UserBoard_setTile ?b row col (Some UNKNOWN)) row col (Some FLAG) = ?b"
      using d len f
      by (intro UserBoard.equality) (auto simp: setTile_def Let_def fun_upd_idem getTile_def)
    then show ?thesis using f by (simp add: flagTile_def getTile_UserBoard_setTile)
  qed
qed

lemma getIndex_inj:
  assumes "in_bounds b r c" "in_bounds b r' c'" "getIndex b r c = getIndex b r' c'"
  shows "r = r' \<and> c = c'"
proof -
  let ?C = "colCount b"
  from assms have c: "0 \<le> c" "c < ?C" "0 \<le> c'" "c' < ?C" and eq: "r * ?C + c = r' * ?C + c'"
    by (auto simp: in_bounds_def getIndex_def)
  have "(r * ?C + c) div ?C = r" "(r' * ?C + c') div ?C = r'"
    using c by (simp_all add: div_pos_pos_trivial)
  with eq have "r = r'" by simp
  with eq show ?thesis by simp
qed

lemma mem_cells [simp]: "(r, c) \<in> set (cells b) \<longleftrightarrow> in_bounds b r c"
  by (auto simp: set_cells in_bounds_def)

lemma length_filter_update:
  assumes "distinct xs" "p \<in> set xs" "\<And>x. x \<in> set xs \<Longrightarrow> x \<noteq> p \<Longrightarrow> P' x = P x"
  shows "int (length (filter P' xs)) = int (length (filter P xs)) - of_bool (P p) + of_bool (P' p)"
  using assms
proof (induction xs)
  case Nil
  then show ?case by simp
next
  case (Cons x xs)
  show ?case
  proof (cases "x = p")
    case True
    with Cons.prems have "p \<notin> set xs" by simp
    with Cons.prems(3) have "filter P' xs = filter P xs"
      by (intro filter_cong) auto
    with True show ?thesis by simp
  next
    case False
    with Cons.prems have "p \<in> set xs" "distinct xs" "P' x = P x" by auto
    with Cons.IH Cons.prems(3) show ?thesis by simp
  qed
qed

lemma cells_UserBoard_setTile [simp]: "cells (UserBoard_setTile b r c t) = cells b"
  by (simp add: cells_def)

lemma count_tiles_UserBoard_setTile:
  assumes "in_bounds b r c"
  shows "int (count_tiles (UserBoard_setTile b r c t) P) =
           int (count_tiles b P) - of_bool (P (getTile b r c)) + of_bool (P t)"
proof -
  have "int (length (filter (\<lambda>(r', c'). P (getTile (UserBoard_setTile b r c t) r' c')) (cells b)))
      = int (length (filter (\<lambda>(r', c'). P (getTile b r' c')) (cells b)))
        - of_bool (case (r, c) of (r', c') \<Rightarrow> P (getTile b r' c'))
        + of_bool (case (r, c) of (r', c') \<Rightarrow> P (getTile (UserBoard_setTile b r c t) r' c'))"
  proof (rule length_filter_update)
    show "distinct (cells b)" by (rule distinct_cells)
    show "(r, c) \<in> set (cells b)" using assms by simp
    fix x assume x: "x \<in> set (cells b)" "x \<noteq> (r, c)"
    obtain r' c' where [simp]: "x = (r', c')" by (cases x)
    from x have "in_bounds b r' c'" by simp
    with getIndex_inj[OF this assms] x(2) have "getIndex b r' c' \<noteq> getIndex b r c" by auto
    then show "(case x of (r', c') \<Rightarrow> P (getTile (UserBoard_setTile b r c t) r' c'))
             = (case x of (r', c') \<Rightarrow> P (getTile b r' c'))"
      by (simp add: getTile_UserBoard_setTile)
  qed
  then show ?thesis by (simp add: count_tiles_def getTile_UserBoard_setTile)
qed

lemma counters_ok_UserBoard_setTile:
  "counters_ok b \<Longrightarrow> in_bounds b r c \<Longrightarrow> counters_ok (UserBoard_setTile b r c t)"
  by (simp add: counters_ok_def count_tiles_UserBoard_setTile)

lemma in_bounds_UserBoard_setTile [simp]:
  "in_bounds (UserBoard_setTile b r c t) r' c' = in_bounds b r' c'"
  by (simp add: in_bounds_def)

lemma counters_ok_apply_writes:
  "counters_ok b \<Longrightarrow> (\<forall>(r, c, t) \<in> set ws. in_bounds b r c) \<Longrightarrow> counters_ok (apply_writes b ws)"
proof (induction ws arbitrary: b)
  case Nil
  then show ?case by simp
next
  case (Cons w ws)
  obtain r c t where w: "w = (r, c, t)" by (cases w)
  from Cons.prems w have "counters_ok (UserBoard_setTile b r c t)"
    by (simp add: counters_ok_UserBoard_setTile)
  moreover from Cons.prems have "\<forall>(r', c', t') \<in> set ws. in_bounds (UserBoard_setTile b r c t) r' c'"
    by auto
  ultimately show ?case using Cons.IH w by simp
qed

lemma count_tiles_partition:
  "count_tiles b (\<lambda>t. t = Some FLAG) + count_tiles b (\<lambda>t. t = Some UNKNOWN) + revealedCount b
     = length (cells b)"
proof -
  have "length (filter P xs) + length (filter Q xs) + length (filter (\<lambda>x. \<not> P x \<and> \<not> Q x) xs)
          = length xs" if "\<And>x. \<not> (P x \<and> Q x)" for P Q :: "int \<times> int \<Rightarrow> bool" and xs
    using that by (induction xs) auto
  from this[of "\<lambda>(r, c). getTile b r c = Some FLAG" "\<lambda>(r, c). getTile b r c = Some UNKNOWN" "cells b"]
  show ?thesis
    by (simp add: count_tiles_def revealedCount_def case_prod_unfold)
qed

lemma length_cells: "length (cells b) = nat (rowCount b) * nat (colCount b)"
  by (simp add: cells_def length_concat o_def sum_list_triv)

lemma visit_prefix_invariant_aux:
  assumes step: "\<And>s r c pre rest. ps = pre @ (r, c) # rest \<Longrightarrow> I pre s \<Longrightarrow>
      \<exists>ret s'. cb s r c (getTile (this s) r c) = Some (ret, s') \<and> ret \<noteq> JBool False
        \<and> I (pre @ [(r, c)]) s'"
  shows "ps = pre @ rest \<Longrightarrow> I pre s \<Longrightarrow> \<exists>s'. visit rest this cb s = Some (True, s') \<and> I ps s'"
proof (induction rest arbitrary: pre s)
  case Nil
  then show ?case by simp
next
  case (Cons p rest)
  obtain r c where p: "p = (r, c)" by (cases p)
  from step[of pre r c rest s] Cons.prems p obtain ret s1 where
    cb: "cb s r c (getTile (this s) r c) = Some (ret, s1)" "ret \<noteq> JBool False"
    and I1: "I (pre @ [(r, c)]) s1" by blast
  from Cons.prems p have "ps = (pre @ [(r, c)]) @ rest" by simp
  from Cons.IH[OF this I1] obtain s' where "visit rest this cb s1 = Some (True, s')" "I ps s'"
    by blast
  with cb p show ?case by simp
qed

lemma visit_prefix_invariant:
  assumes "\<And>s r c pre rest. ps = pre @ (r, c) # rest \<Longrightarrow> I pre s \<Longrightarrow>
      \<exists>ret s'. cb s r c (getTile (this s) r c) = Some (ret, s') \<and> ret \<noteq> JBool False
        \<and> I (pre @ [(r, c)]) s'"
    and "I [] s"
  shows "\<exists>s'. visit ps this cb s = Some (True, s') \<and> I ps s'"
proof (rule visit_prefix_invariant_aux[where I = I and ps = ps and pre = "[]" and cb = cb and this = this])
  show "ps = [] @ ps" by simp
  show "I [] s" by (rule assms(2))
qed (rule assms(1))

lemma array_wf_setTile: "array_wf b \<Longrightarrow> array_wf (setTile b r c t)"
  by (auto simp: array_wf_def setTile_def Let_def)

lemma array_wf_UserBoard_setTile: "array_wf b \<Longrightarrow> array_wf (UserBoard_setTile b r c t)"
  using array_wf_setTile[of b r c t]
  by (auto simp: array_wf_def)

lemma blank_UserBoard_simps [simp]:
  "rowCount (blank_UserBoard rows oc) = rowCount (new_Board rows oc)"
  "colCount (blank_UserBoard rows oc) = colCount (new_Board rows oc)"
  "data (blank_UserBoard rows oc) = (\<lambda>_. None)"
  "data_length (blank_UserBoard rows oc) = 0"
  "flagCount (blank_UserBoard rows oc) = 0"
  "unknownCount (blank_UserBoard rows oc) = 0"
  by (simp_all add: blank_UserBoard_def Board.extend_def new_Board_def)

lemma keeps_dims_initBoard: "keeps_dims (\<lambda>s. s) initBoard_callback"
  by (auto simp: keeps_dims_def initBoard_callback_def)

lemma new_UserBoard_result:
  "\<exists>b. new_UserBoard rows oc = Some b
      \<and> rowCount b = rowCount (new_Board rows oc) \<and> colCount b = colCount (new_Board rows oc)
      \<and> counters_ok b \<and> array_wf b \<and> flagCount b = 0
      \<and> (\<forall>r c. in_bounds b r c \<longrightarrow> getTile b r c = Some UNKNOWN)"
proof -
  let ?b0 = "blank_UserBoard rows oc"
  let ?cb = initBoard_callback
  let ?I = "\<lambda>pre b. rowCount b = rowCount ?b0 \<and> colCount b = colCount ?b0 \<and> counters_ok b
      \<and> array_wf b \<and> flagCount b = 0 \<and> (\<forall>i. data b i \<noteq> Some FLAG)
      \<and> (\<forall>(r, c) \<in> set pre. getTile b r c = Some UNKNOWN)"
  have "\<exists>b. visit (cells ?b0) (\<lambda>s. s) ?cb ?b0 = Some (True, b) \<and> ?I (cells ?b0) b"
  proof (rule visit_prefix_invariant[where I = ?I])
    show "?I [] ?b0"
      by (simp add: counters_ok_def count_tiles_def getTile_def array_wf_def)
  next
    fix s r c pre rest
    assume ps: "cells ?b0 = pre @ (r, c) # rest" and I: "?I pre s"
    have "(r, c) \<in> set (cells ?b0)" by (simp add: ps)
    with I have ib: "in_bounds s r c" by (simp add: in_bounds_def)
    have "set pre \<subseteq> set (cells ?b0)" by (auto simp: ps)
    with I have ibd: "\<And>r' c'. (r', c') \<in> set pre \<Longrightarrow> in_bounds s r' c'"
      by (auto simp: in_bounds_def)
    let ?s' = "UserBoard_setTile s r c (Some UNKNOWN)"
    have "?I (pre @ [(r, c)]) ?s'"
      using I ib by (auto simp: counters_ok_UserBoard_setTile array_wf_UserBoard_setTile
          getTile_UserBoard_setTile getTile_def)
    then show "\<exists>ret s'. ?cb s r c (getTile ((\<lambda>s. s) s) r c) = Some (ret, s') \<and> ret \<noteq> JBool False
        \<and> ?I (pre @ [(r, c)]) s'" by (simp add: initBoard_callback_def)
  qed
  then obtain b where v: "visit (cells ?b0) (\<lambda>s. s) ?cb ?b0 = Some (True, b)" and I: "?I (cells ?b0) b"
    by blast
  have "new_UserBoard rows oc = Some b"
    using v by (simp add: new_UserBoard_def initBoard_def forEachTile_visit[OF keeps_dims_initBoard]
        blank_UserBoard_def)
  moreover from I have "\<forall>r c. in_bounds b r c \<longrightarrow> getTile b r c = Some UNKNOWN"
    by (auto simp: in_bounds_def set_cells)
  ultimately show ?thesis using I by simp
qed

lemma array_of_upd:
  "0 \<le> i \<Longrightarrow> i < int (length xs) \<Longrightarrow> (array_of xs)(i := t) = array_of (xs[nat i := t])"
  by (auto simp: array_of_def fun_eq_iff nth_list_update)

lemma array_of_Nil: "array_of [] = (\<lambda>_. None)"
  by (auto simp: array_of_def fun_eq_iff)

lemma array_wf_array_of: "data_length b = length xs \<Longrightarrow> data b = array_of xs \<Longrightarrow> array_wf b"
  by (simp add: array_wf_def array_of_def)

lemma revealTile_game_2x2: "revealTile (Suc 0) game_2x2 0 1 = Some (JNull, game_2x2_revealed)"
  by (simp add: game_2x2_def game_2x2_revealed_def getTile_def getIndex_def array_of_def
      array_of_upd UserBoard_setTile_def setTile_def Let_def)


section \<open>Construction of the solution grid\<close>

lemma keeps_dims_setMines_clear: "keeps_dims fst setMines_clear"
  by (auto simp: keeps_dims_def setMines_clear_def split: if_splits)

lemma incrementAdjacentTiles_visit:
  "incrementAdjacentTiles b row col =
     map_option snd (visit (neighbours b row col) (\<lambda>s. s) incrementAdjacentTiles_callback b)"
  by (simp add: incrementAdjacentTiles_def forEachBoundaryTile_visit)

lemma keeps_dims_increment: "keeps_dims (\<lambda>s. s) incrementAdjacentTiles_callback"
  by (auto simp: keeps_dims_def incrementAdjacentTiles_callback_def split: if_splits)

lemma incrementAdjacentTiles_dims:
  "incrementAdjacentTiles b row col = Some b' \<Longrightarrow>
     rowCount b' = rowCount b \<and> colCount b' = colCount b"
  using visit_keeps_dims[OF keeps_dims_increment]
  by (auto simp: incrementAdjacentTiles_visit)

lemma keeps_dims_setMines_count: "keeps_dims (\<lambda>s. s) setMines_count"
  by (auto simp: keeps_dims_def setMines_count_def split: if_splits
      dest: incrementAdjacentTiles_dims)

lemma setMines_visit:
  "setMines rnd b m =
     (case visit (cells b) fst setMines_clear (b, m) of
        None \<Rightarrow> None
      | Some (_, (b1, _)) \<Rightarrow>
          let b2 = snd (shuffle rnd b1) in
          map_option snd (visit (cells b2) (\<lambda>s. s) setMines_count b2))"
  unfolding setMines_def forEachTile_visit[OF keeps_dims_setMines_clear]
    forEachTile_visit[OF keeps_dims_setMines_count]
  by simp

lemma map_add_upto: "map (\<lambda>c. a + c) [0..n - 1] = [a..a + n - 1]"
proof (induction "nat n" arbitrary: n)
  case 0
  then show ?case by simp
next
  case (Suc k)
  then have n: "0 < n" "k = nat (n - 1)" by auto
  have e: "n - 1 - 1 = n - 2" "a + (n - 1) - 1 = a + n - 2" "a + n - 1 - 1 = a + n - 2" by auto
  from Suc.hyps(1)[OF n(2)] have IH: "map (\<lambda>c. a + c) [0..n - 2] = [a..a + n - 2]"
    by (simp only: e)
  have "[0..n - 1] = [0..n - 2] @ [n - 1]" using n(1) upto_rec2[of 0 "n - 1"] by (simp only: e)
  moreover have "[a..a + n - 1] = [a..a + n - 2] @ [a + n - 1]"
    using n(1) upto_rec2[of a "a + n - 1"] by (simp only: e)
  ultimately show ?case using IH by simp
qed

lemma cells_indices:
  "map (\<lambda>(r, c). getIndex b r c) (cells b) = [0..int (length (cells b)) - 1]"
proof -
  let ?C = "colCount b"
  have rows: "concat (map (\<lambda>r. map (\<lambda>c. r * ?C + c) [0..?C - 1]) [0..R - 1])
                = [0..int (nat R * nat ?C) - 1]" for R
  proof (induction "nat R" arbitrary: R)
    case 0
    then show ?case by simp
  next
    case (Suc k)
    then have R: "0 < R" "k = nat (R - 1)" by auto
    have e: "R - 1 - 1 = R - 2" by simp
    from Suc.hyps(1)[OF R(2)]
    have IH: "concat (map (\<lambda>r. map (\<lambda>c. r * ?C + c) [0..?C - 1]) [0..R - 2])
                = [0..int (nat (R - 1) * nat ?C) - 1]"
      by (simp only: e)
    have up: "[0..R - 1] = [0..R - 2] @ [R - 1]"
      using R(1) upto_rec2[of 0 "R - 1"] by (simp only: e)
    show ?case
    proof (cases "0 < ?C")
      case False
      then have "[0..?C - 1] = []" by simp
      with False show ?thesis by simp
    next
      case True
      have a: "int (nat (R - 1) * nat ?C) = (R - 1) * ?C" using R True by (simp add: nat_mult_distrib)
      have b: "int (nat R * nat ?C) = R * ?C" using R True by (simp add: nat_mult_distrib)
      have row: "map (\<lambda>c. (R - 1) * ?C + c) [0..?C - 1] = [(R - 1) * ?C..(R - 1) * ?C + ?C - 1]"
        by (rule map_add_upto)
      have "0 \<le> (R - 1) * ?C" using R True by simp
      then have "[0..R * ?C - 1] = [0..(R - 1) * ?C - 1] @ [(R - 1) * ?C..R * ?C - 1]"
        using True by (intro upto_split1) (auto simp: algebra_simps)
      moreover have "(R - 1) * ?C + ?C - 1 = R * ?C - 1" by (simp add: algebra_simps)
      ultimately show ?thesis by (simp only: IH up row a b map_append concat_append list.map concat.simps append_Nil2)
    qed
  qed
  have "map (\<lambda>(r, c). getIndex b r c) (cells b)
          = concat (map (\<lambda>r. map (\<lambda>c. r * ?C + c) [0..?C - 1]) [0..rowCount b - 1])"
    by (simp add: cells_def map_concat o_def getIndex_def)
  also have "\<dots> = [0..int (nat (rowCount b) * nat ?C) - 1]" by (rule rows)
  finally show ?thesis by (simp add: length_cells)
qed

lemma cell_index_prefix:
  assumes "cells b = pre @ (r, c) # rest"
  shows "getIndex b r c = int (length pre)"
proof -
  let ?n = "length (cells b)"
  have lt: "length pre < ?n" using assms by simp
  have "map (\<lambda>(r, c). getIndex b r c) (cells b) ! length pre = getIndex b r c"
    using assms by (simp add: nth_append)
  moreover have "[0..int ?n - 1] ! length pre = int (length pre)"
    using lt by (simp add: nth_upto)
  ultimately show ?thesis by (simp add: cells_indices)
qed

lemma setMines_pass1:
  fixes b0 :: MineBoard
  assumes "data b0 = (\<lambda>_. None)" "data_length b0 = 0"
  shows "\<exists>b1 m1. visit (cells b0) fst setMines_clear (b0, m) = Some (True, (b1, m1))
      \<and> rowCount b1 = rowCount b0 \<and> colCount b1 = colCount b0 \<and> mineCount b1 = mineCount b0
      \<and> data_length b1 = length (cells b0)
      \<and> (\<forall>i. data b1 i = (if 0 \<le> i \<and> i < int (length (cells b0))
                            then Some (if i < m then MINE else 0) else None))"
proof -
  let ?I = "\<lambda>pre (s :: MineBoard \<times> int).
      rowCount (fst s) = rowCount b0 \<and> colCount (fst s) = colCount b0
      \<and> mineCount (fst s) = mineCount b0
      \<and> data_length (fst s) = length pre
      \<and> (\<forall>i. data (fst s) i = (if 0 \<le> i \<and> i < int (length pre)
                               then Some (if i < m then MINE else 0) else None))
      \<and> snd s = (if int (length pre) < m then m - int (length pre) else min m 0)"
  have "\<exists>s'. visit (cells b0) fst setMines_clear (b0, m) = Some (True, s') \<and> ?I (cells b0) s'"
  proof (rule visit_prefix_invariant[where I = ?I])
    show "?I [] (b0, m)" using assms by auto
  next
    fix s :: "MineBoard \<times> int" and r c pre rest
    assume ps: "cells b0 = pre @ (r, c) # rest" and I: "?I pre s"
    obtain b m' where s: "s = (b, m')" by (cases s)
    from I s have "cells b = cells b0" by (simp add: cells_def)
    with cell_index_prefix[of b pre r c rest] ps have idx: "getIndex b r c = int (length pre)"
      by simp
    let ?s' = "if m' > 0 then (setTile b r c (Some MINE), m' - 1) else (setTile b r c (Some 0), m')"
    have "setMines_clear s r c (getTile (fst s) r c) = Some (JUndefined, ?s')"
      by (simp add: setMines_clear_def s)
    moreover have "?I (pre @ [(r, c)]) ?s'"
      using I s idx by (auto simp: setTile_def Let_def)
    ultimately show "\<exists>ret s'. setMines_clear s r c (getTile (fst s) r c) = Some (ret, s')
        \<and> ret \<noteq> JBool False \<and> ?I (pre @ [(r, c)]) s'" by blast
  qed
  then obtain s' where "visit (cells b0) fst setMines_clear (b0, m) = Some (True, s')" "?I (cells b0) s'"
    by blast
  then show ?thesis by (cases s') auto
qed

lemma map_fun_upd_nat:
  "i < N \<Longrightarrow> map (\<lambda>k. (d(int i := v)) (int k)) [0..<N] = (map (\<lambda>k. d (int k)) [0..<N])[i := v]"
  by (auto simp: list_eq_iff_nth_eq nth_list_update)

lemma mset_swap_fun:
  assumes "i < N" "j < N"
  shows "mset (map (\<lambda>k. ((d(int i := d (int j)))(int j := d (int i))) (int k)) [0..<N])
           = mset (map (\<lambda>k. d (int k)) [0..<N])"
proof -
  let ?xs = "map (\<lambda>k. d (int k)) [0..<N]"
  have a: "map (\<lambda>k. ((d(int i := d (int j)))(int j := d (int i))) (int k)) [0..<N]
          = ?xs[i := ?xs ! j, j := ?xs ! i]"
    using assms by (auto simp: list_eq_iff_nth_eq nth_list_update)
  have b: "mset (?xs[i := ?xs ! j, j := ?xs ! i]) = mset ?xs"
    by (rule mset_swap) (simp_all add: assms)
  show ?thesis unfolding a by (rule b)
qed

lemma shuffle_while_props:
  "i \<le> N \<Longrightarrow>
     rowCount (shuffle_while rnd i b) = rowCount b \<and> colCount (shuffle_while rnd i b) = colCount b
     \<and> data_length (shuffle_while rnd i b) = data_length b
     \<and> Board.more (shuffle_while rnd i b) = Board.more b
     \<and> mset (map (\<lambda>k. data (shuffle_while rnd i b) (int k)) [0..<N])
         = mset (map (\<lambda>k. data b (int k)) [0..<N])
     \<and> (\<forall>x. x < 0 \<or> int N \<le> x \<longrightarrow> data (shuffle_while rnd i b) x = data b x)"
proof (induction rnd i b rule: shuffle_while.induct)
  case (1 rnd i b)
  show ?case
  proof (cases "i - 1 = 0")
    case True
    then show ?thesis by (subst (1 2 3 4 5 6) shuffle_while.simps) simp
  next
    case False
    let ?i = "i - 1"
    let ?j = "rnd ?i mod (?i + 1)"
    let ?b1 = "b\<lparr>data := (data b)(int ?i := data b (int ?j))\<rparr>"
    let ?b2 = "?b1\<lparr>data := (data ?b1)(int ?j := data b (int ?i))\<rparr>"
    have jlt: "?j < ?i + 1" by (rule mod_less_divisor) simp
    have "?i + 1 \<le> N" using "1.prems" False by simp
    with jlt have lt: "?i < N" "?j < N" "?j \<le> ?i" by linarith+
    have unf: "shuffle_while rnd i b = shuffle_while rnd ?i ?b2"
      using False by (subst shuffle_while.simps) (simp add: Let_def)
    have IH: "rowCount (shuffle_while rnd ?i ?b2) = rowCount ?b2 \<and>
        colCount (shuffle_while rnd ?i ?b2) = colCount ?b2
        \<and> data_length (shuffle_while rnd ?i ?b2) = data_length ?b2
        \<and> Board.more (shuffle_while rnd ?i ?b2) = Board.more ?b2
        \<and> mset (map (\<lambda>k. data (shuffle_while rnd ?i ?b2) (int k)) [0..<N])
            = mset (map (\<lambda>k. data ?b2 (int k)) [0..<N])
        \<and> (\<forall>x. x < 0 \<or> int N \<le> x \<longrightarrow> data (shuffle_while rnd ?i ?b2) x = data ?b2 x)"
      using "1.IH"[OF refl False refl refl refl refl refl] lt by simp
    let ?xs = "map (\<lambda>k. data b (int k)) [0..<N]"
    have "data ?b2 = ((data b)(int ?i := data b (int ?j)))(int ?j := data b (int ?i))" by simp
    then have "mset (map (\<lambda>k. data ?b2 (int k)) [0..<N]) = mset ?xs"
      using mset_swap_fun[OF lt(1,2), of "data b"] by (simp only:)
    moreover have "\<forall>x. x < 0 \<or> int N \<le> x \<longrightarrow> data ?b2 x = data b x"
      using lt by auto
    ultimately show ?thesis using IH unfolding unf by simp
  qed
qed

lemma shuffle_props:
  "data_length b \<le> N \<Longrightarrow>
     rowCount (snd (shuffle rnd b)) = rowCount b \<and> colCount (snd (shuffle rnd b)) = colCount b
     \<and> data_length (snd (shuffle rnd b)) = data_length b
     \<and> Board.more (snd (shuffle rnd b)) = Board.more b
     \<and> mset (map (\<lambda>k. data (snd (shuffle rnd b)) (int k)) [0..<N])
         = mset (map (\<lambda>k. data b (int k)) [0..<N])
     \<and> (\<forall>x. x < 0 \<or> int N \<le> x \<longrightarrow> data (snd (shuffle rnd b)) x = data b x)"
  using shuffle_while_props[of "data_length b" N rnd b]
  by (simp add: shuffle_def Let_def)

lemma map_int_upt: "map int [0..<n] = [0..int n - 1]"
proof (induction n)
  case 0
  then show ?case by simp
next
  case (Suc n)
  have "[0..int (Suc n) - 1] = [0..int n - 1] @ [int n]"
    using upto_rec2[of 0 "int n"] by simp
  with Suc show ?case by simp
qed

lemma tiles_data: "tiles b = map (\<lambda>k. data b (int k)) [0..<length (cells b)]"
proof -
  have "tiles b = map (data b) (map (\<lambda>(r, c). getIndex b r c) (cells b))"
    by (simp add: tiles_def getTile_def case_prod_unfold)
  also have "\<dots> = map (data b) (map int [0..<length (cells b)])"
    by (simp only: cells_indices map_int_upt)
  finally show ?thesis by (simp add: o_def)
qed

lemma count_tiles_tiles: "count_tiles b P = length (filter P (tiles b))"
  by (simp add: count_tiles_def tiles_def filter_map o_def case_prod_unfold)

lemma count_tiles_mset: "count_tiles b P = size (filter_mset P (mset (tiles b)))"
  by (simp add: count_tiles_tiles flip: mset_filter)

lemma in_bounds_tile_mem: "in_bounds b r c \<Longrightarrow> getTile b r c \<in> set (tiles b)"
  by (force simp: tiles_def)

lemma length_filter_less: "length (filter (\<lambda>k. int k < m) [0..<n]) = min (nat m) n"
  by (induction n) auto

lemma in_bounds_setTile [simp]: "in_bounds (setTile b r c t) r' c' = in_bounds b r' c'"
  by (simp add: in_bounds_def)

lemma mineCount_setTile [simp]: "mineCount (setTile b r c t) = mineCount b"
  by (simp add: setTile_def Let_def)

lemma getTile_setTile_in_bounds:
  "in_bounds b r c \<Longrightarrow> in_bounds b r' c' \<Longrightarrow>
     getTile (setTile b r c t) r' c' = (if (r', c') = (r, c) then t else getTile b r' c')"
  using getIndex_inj[of b r' c' r c] by (auto simp: getTile_setTile)

lemma mem_neighbours [simp]:
  "(r, c) \<in> set (neighbours b row col) \<longleftrightarrow> in_bounds b r c \<and> adjacent row col r c"
  by (auto simp: set_neighbours in_bounds_def)

lemma incrementAdjacentTiles_result:
  "\<exists>b'. incrementAdjacentTiles b row col = Some b'
      \<and> rowCount b' = rowCount b \<and> colCount b' = colCount b \<and> mineCount b' = mineCount b
      \<and> (\<forall>r c. in_bounds b r c \<longrightarrow>
            getTile b' r c = (if adjacent row col r c \<and> tile_ge (getTile b r c) 0
                              then map_option (\<lambda>n. n + 1) (getTile b r c) else getTile b r c))"
proof -
  let ?ns = "neighbours b row col"
  let ?J = "\<lambda>pre b'. rowCount b' = rowCount b \<and> colCount b' = colCount b
      \<and> mineCount b' = mineCount b
      \<and> (\<forall>r c. in_bounds b r c \<longrightarrow>
            getTile b' r c = (if (r, c) \<in> set pre \<and> tile_ge (getTile b r c) 0
                              then map_option (\<lambda>n. n + 1) (getTile b r c) else getTile b r c))"
  have "\<exists>b'. visit ?ns (\<lambda>s. s) incrementAdjacentTiles_callback b = Some (True, b') \<and> ?J ?ns b'"
  proof (rule visit_prefix_invariant[where I = ?J])
    show "?J [] b" by simp
  next
    fix s :: MineBoard and r c pre rest
    assume ps: "?ns = pre @ (r, c) # rest" and J: "?J pre s"
    from distinct_neighbours[of b row col] ps have notin: "(r, c) \<notin> set pre" by simp
    have "(r, c) \<in> set ?ns" by (simp add: ps)
    then have ib: "in_bounds b r c" by simp
    from J have ib_s: "\<And>r' c'. in_bounds s r' c' = in_bounds b r' c'" by (simp add: in_bounds_def)
    from J ib notin have t: "getTile s r c = getTile b r c" by simp
    let ?s' = "if tile_ge (getTile b r c) 0
               then setTile s r c (map_option (\<lambda>n. n + 1) (getTile b r c)) else s"
    have cb: "incrementAdjacentTiles_callback s r c (getTile s r c) = Some (JUndefined, ?s')"
      by (simp add: incrementAdjacentTiles_callback_def t)
    have "getTile ?s' r' c' = (if (r', c') \<in> set (pre @ [(r, c)]) \<and> tile_ge (getTile b r' c') 0
                              then map_option (\<lambda>n. n + 1) (getTile b r' c') else getTile b r' c')"
      if "in_bounds b r' c'" for r' c'
      using that J ib notin by (auto simp: getTile_setTile_in_bounds ib_s)
    with J have "?J (pre @ [(r, c)]) ?s'" by simp
    with cb show "\<exists>ret s'. incrementAdjacentTiles_callback s r c (getTile s r c) = Some (ret, s')
        \<and> ret \<noteq> JBool False \<and> ?J (pre @ [(r, c)]) s'" by blast
  qed
  then obtain b' where v: "visit ?ns (\<lambda>s. s) incrementAdjacentTiles_callback b = Some (True, b')" and J: "?J ?ns b'"
    by blast
  from v have "incrementAdjacentTiles b row col = Some b'"
    by (simp add: incrementAdjacentTiles_visit incrementAdjacentTiles_callback_def)
  with J show ?thesis by auto
qed

lemma mine_neighbours_cells:
  "mine_neighbours b row col =
     length (filter (\<lambda>(r, c). getTile b r c = Some MINE \<and> adjacent r c row col) (cells b))"
proof -
  have "(\<lambda>x. (case x of (r, c) \<Rightarrow> adjacent row col r c) \<and> (case x of (r, c) \<Rightarrow> getTile b r c = Some MINE))
      = (\<lambda>(r, c). getTile b r c = Some MINE \<and> adjacent r c row col)"
    by (auto simp: fun_eq_iff adjacent_sym[of row col])
  then show ?thesis by (simp add: mine_neighbours_def neighbours_def)
qed

lemma setMines_pass2:
  fixes b2 :: MineBoard
  assumes mz: "\<And>r c. in_bounds b2 r c \<Longrightarrow> getTile b2 r c = Some MINE \<or> getTile b2 r c = Some 0"
  shows "\<exists>b3. visit (cells b2) (\<lambda>s. s) setMines_count b2 = Some (True, b3)
      \<and> rowCount b3 = rowCount b2 \<and> colCount b3 = colCount b2 \<and> mineCount b3 = mineCount b2
      \<and> (\<forall>r c. in_bounds b2 r c \<longrightarrow>
            getTile b3 r c = (if getTile b2 r c = Some MINE then Some MINE
                              else Some (int (mine_neighbours b2 r c))))"
proof -
  let ?cnt = "\<lambda>pre r c. length (filter (\<lambda>(r', c'). getTile b2 r' c' = Some MINE \<and> adjacent r' c' r c) pre)"
  let ?I = "\<lambda>pre b. rowCount b = rowCount b2 \<and> colCount b = colCount b2 \<and> mineCount b = mineCount b2
      \<and> (\<forall>r c. in_bounds b2 r c \<longrightarrow>
            getTile b r c = (if getTile b2 r c = Some MINE then Some MINE
                             else Some (int (?cnt pre r c))))"
  have "\<exists>b3. visit (cells b2) (\<lambda>s. s) setMines_count b2 = Some (True, b3) \<and> ?I (cells b2) b3"
  proof (rule visit_prefix_invariant[where I = ?I])
    show "?I [] b2" using mz by auto
  next
    fix s :: MineBoard and r0 c0 pre rest
    assume ps: "cells b2 = pre @ (r0, c0) # rest" and I: "?I pre s"
    have "(r0, c0) \<in> set (cells b2)" by (simp add: ps)
    then have ib0: "in_bounds b2 r0 c0" by simp
    from I have ib_s: "\<And>r c. in_bounds s r c = in_bounds b2 r c" by (simp add: in_bounds_def)
    show "\<exists>ret s'. setMines_count s r0 c0 (getTile ((\<lambda>s. s) s) r0 c0) = Some (ret, s')
        \<and> ret \<noteq> JBool False \<and> ?I (pre @ [(r0, c0)]) s'"
    proof (cases "getTile b2 r0 c0 = Some MINE")
      case False
      with I ib0 have "getTile s r0 c0 \<noteq> Some MINE" by simp
      then have "setMines_count s r0 c0 (getTile s r0 c0) = Some (JUndefined, s)"
        by (simp add: setMines_count_def)
      moreover have "?I (pre @ [(r0, c0)]) s" using I False by simp
      ultimately show ?thesis by simp
    next
      case True
      with I ib0 have t: "getTile s r0 c0 = Some MINE" by simp
      from incrementAdjacentTiles_result[of s r0 c0] obtain s' where
        inc: "incrementAdjacentTiles s r0 c0 = Some s'"
        and d: "rowCount s' = rowCount s" "colCount s' = colCount s" "mineCount s' = mineCount s"
        and g: "\<And>r c. in_bounds s r c \<Longrightarrow>
            getTile s' r c = (if adjacent r0 c0 r c \<and> tile_ge (getTile s r c) 0
                              then map_option (\<lambda>n. n + 1) (getTile s r c) else getTile s r c)"
        by blast
      have cb: "setMines_count s r0 c0 (getTile s r0 c0) = Some (JUndefined, s')"
        by (simp add: setMines_count_def t inc)
      have "getTile s' r c = (if getTile b2 r c = Some MINE then Some MINE
                             else Some (int (?cnt (pre @ [(r0, c0)]) r c)))"
        if ib: "in_bounds b2 r c" for r c
      proof (cases "getTile b2 r c = Some MINE")
        case m: True
        with I ib have "getTile s r c = Some MINE" by simp
        with g[of r c] ib ib_s m show ?thesis by (simp add: tile_ge_def)
      next
        case nm: False
        with I ib have "getTile s r c = Some (int (?cnt pre r c))" by simp
        with g[of r c] ib ib_s nm True show ?thesis by (simp add: tile_ge_def)
      qed
      with I d have "?I (pre @ [(r0, c0)]) s'" by simp
      with cb show ?thesis by simp
    qed
  qed
  then obtain b3 where v: "visit (cells b2) (\<lambda>s. s) setMines_count b2 = Some (True, b3)"
    and I: "?I (cells b2) b3" by blast
  from I have "\<forall>r c. in_bounds b2 r c \<longrightarrow>
            getTile b3 r c = (if getTile b2 r c = Some MINE then Some MINE
                              else Some (int (mine_neighbours b2 r c)))"
    by (simp add: mine_neighbours_cells)
  with v I show ?thesis by blast
qed

lemma cells_cong: "rowCount b' = rowCount b \<Longrightarrow> colCount b' = colCount b \<Longrightarrow> cells b' = cells b"
  by (simp add: cells_def)

lemma neighbours_cong:
  "rowCount b' = rowCount b \<Longrightarrow> colCount b' = colCount b \<Longrightarrow> neighbours b' r c = neighbours b r c"
  by (simp add: neighbours_def cells_def)

lemma in_bounds_cong:
  "rowCount b' = rowCount b \<Longrightarrow> colCount b' = colCount b \<Longrightarrow> in_bounds b' r c = in_bounds b r c"
  by (simp add: in_bounds_def)

lemma shuffle_mineCount: "mineCount (snd (shuffle rnd (b::MineBoard))) = mineCount b"
proof -
  let ?b' = "snd (shuffle rnd b)"
  have p: "rowCount ?b' = rowCount b" "colCount ?b' = colCount b"
    "data_length ?b' = data_length b" "Board.more ?b' = Board.more b"
    using shuffle_props[of b "data_length b" rnd] by blast+
  have eq: "?b' = b\<lparr>data := data ?b'\<rparr>" by (rule Board.equality) (simp_all add: p)
  have "mineCount ?b' = mineCount (b\<lparr>data := data ?b'\<rparr>)" by (rule arg_cong[OF eq])
  also have "\<dots> = mineCount b" by simp
  finally show ?thesis .
qed

lemma new_MineBoard_result:
  "\<exists>b. new_MineBoard rnd mines rows oc = Some b
      \<and> rowCount b = rowCount (new_Board rows oc) \<and> colCount b = colCount (new_Board rows oc)
      \<and> mineCount b = mines
      \<and> count_tiles b (\<lambda>t. t = Some MINE) = min (nat mines) (length (cells b))
      \<and> (\<forall>r c. in_bounds b r c \<longrightarrow>
            getTile b r c = Some MINE \<or> getTile b r c = Some (int (mine_neighbours b r c)))"
proof -
  define b0 where "b0 = Board.extend (new_Board rows oc) \<lparr>mineCount = mines\<rparr>"
  define n where "n = length (cells b0)"
  have b0: "data b0 = (\<lambda>_. None)" "data_length b0 = 0" "mineCount b0 = mines"
    "rowCount b0 = rowCount (new_Board rows oc)" "colCount b0 = colCount (new_Board rows oc)"
    by (simp_all add: b0_def Board.extend_def new_Board_def)
  from setMines_pass1[OF b0(1,2), of mines] obtain b1 m1 where
    p1: "visit (cells b0) fst setMines_clear (b0, mines) = Some (True, (b1, m1))"
    and d1: "rowCount b1 = rowCount b0" "colCount b1 = colCount b0" "mineCount b1 = mineCount b0"
    and len1: "data_length b1 = n"
    and data1: "\<forall>i. data b1 i = (if 0 \<le> i \<and> i < int n
                            then Some (if i < mines then MINE else 0) else None)"
    unfolding n_def by blast
  have c1: "cells b1 = cells b0" by (rule cells_cong) (simp_all only: d1)
  have t1: "tiles b1 = map (\<lambda>k. Some (if int k < mines then MINE else 0)) [0..<n]"
    by (simp add: tiles_data c1 data1 flip: n_def)
  define b2 where "b2 = snd (shuffle rnd b1)"
  from shuffle_props[of b1 n rnd] len1 have
    d2: "rowCount b2 = rowCount b1" "colCount b2 = colCount b1"
    and ms: "mset (map (\<lambda>k. data b2 (int k)) [0..<n]) = mset (map (\<lambda>k. data b1 (int k)) [0..<n])"
    unfolding b2_def by simp_all
  have mc2: "mineCount b2 = mineCount b1" unfolding b2_def by (rule shuffle_mineCount)
  have c2: "cells b2 = cells b0" using cells_cong[OF d2] c1 by simp
  have t2: "mset (tiles b2) = mset (tiles b1)"
    using ms by (simp only: tiles_data c1 c2 flip: n_def)
  have cnt2: "count_tiles b2 (\<lambda>t. t = Some MINE) = min (nat mines) n"
  proof -
    have "count_tiles b2 (\<lambda>t. t = Some MINE) = length (filter (\<lambda>t. t = Some MINE) (tiles b1))"
      unfolding count_tiles_mset t2 by (simp flip: mset_filter)
    also have "\<dots> = length (filter (\<lambda>k. int k < mines) [0..<n])"
      by (simp add: t1 filter_map o_def)
    finally show ?thesis by (simp only: length_filter_less)
  qed
  have mz: "getTile b2 r c = Some MINE \<or> getTile b2 r c = Some 0" if "in_bounds b2 r c" for r c
  proof -
    from in_bounds_tile_mem[OF that] have "getTile b2 r c \<in> set_mset (mset (tiles b2))" by simp
    then have "getTile b2 r c \<in> set (tiles b1)" by (simp only: t2 set_mset_mset)
    then show ?thesis by (auto simp: t1 split: if_splits)
  qed
  from setMines_pass2[of b2, OF mz] obtain b3 where
    p2: "visit (cells b2) (\<lambda>s. s) setMines_count b2 = Some (True, b3)"
    and d3: "rowCount b3 = rowCount b2" "colCount b3 = colCount b2" "mineCount b3 = mineCount b2"
    and g3: "\<forall>r c. in_bounds b2 r c \<longrightarrow>
            getTile b3 r c = (if getTile b2 r c = Some MINE then Some MINE
                              else Some (int (mine_neighbours b2 r c)))"
    by blast
  have "setMines rnd b0 mines = Some b3"
    unfolding setMines_visit using p1 p2 by (simp add: Let_def b2_def)
  then have res: "new_MineBoard rnd mines rows oc = Some b3"
    by (simp add: new_MineBoard_def b0_def)
  have c3: "cells b3 = cells b2" by (rule cells_cong) (simp_all only: d3)
  have mine_iff: "getTile b3 r c = Some MINE \<longleftrightarrow> getTile b2 r c = Some MINE"
    if "in_bounds b2 r c" for r c
    using g3 that by simp
  have cnt3: "count_tiles b3 (\<lambda>t. t = Some MINE) = count_tiles b2 (\<lambda>t. t = Some MINE)"
    unfolding count_tiles_def c3
    by (rule arg_cong[where f = length], rule filter_cong) (auto simp: mine_iff)
  have mn3: "mine_neighbours b3 r c = mine_neighbours b2 r c" for r c
    unfolding mine_neighbours_def neighbours_cong[OF d3(1,2)]
    by (rule arg_cong[where f = length], rule filter_cong) (auto simp: mine_iff)
  have adj3: "getTile b3 r c = Some MINE \<or> getTile b3 r c = Some (int (mine_neighbours b3 r c))"
    if "in_bounds b3 r c" for r c
  proof -
    from that have "in_bounds b2 r c" by (simp only: in_bounds_cong[OF d3(1,2)])
    with g3 show ?thesis by (simp add: mn3)
  qed
  have f1: "mineCount b3 = mines" by (simp only: d3 mc2 d1 b0)
  have f2: "rowCount b3 = rowCount (new_Board rows oc)" "colCount b3 = colCount (new_Board rows oc)"
    by (simp_all only: d3 d2 d1 b0)
  have f3: "count_tiles b3 (\<lambda>t. t = Some MINE) = min (nat mines) (length (cells b3))"
    by (simp only: cnt3 cnt2 c3 c2 n_def)
  show ?thesis
    by (intro exI[of _ b3] conjI allI impI) (rule res f1 f2 f3 adj3, assumption?)+
qed


section \<open>The example game is the game the constructor builds\<close>

lemma cells_2x2: "rowCount b = 2 \<Longrightarrow> colCount b = 2 \<Longrightarrow> cells b = [(0, 0), (0, 1), (1, 0), (1, 1)]"
  by (simp add: cells_def upto.simps)

lemma neighbours_2x2:
  assumes "rowCount b = 2" "colCount b = 2"
  shows "neighbours b 0 0 = [(0, 1), (1, 0), (1, 1)]"
    "neighbours b 0 1 = [(0, 0), (1, 0), (1, 1)]"
    "neighbours b 1 0 = [(0, 0), (0, 1), (1, 1)]"
    "neighbours b 1 1 = [(0, 0), (0, 1), (1, 0)]"
  by (simp_all add: neighbours_def cells_2x2[OF assms] adjacent_def)

lemma array_of_snoc:
  "i = int (length xs) \<Longrightarrow> (array_of xs)(i := t) = array_of (xs @ [t])"
  by (auto simp: array_of_def fun_eq_iff nth_append)

lemma new_MineBoard_2x2:
  "new_MineBoard (\<lambda>i. i) 1 2 None = Some (mineBoard game_2x2)"
proof -
  let ?b0 = "\<lparr>rowCount = 2, colCount = 2, data = array_of [], data_length = 0, mineCount = 1\<rparr>"
  let ?b1 = "\<lparr>rowCount = 2, colCount = 2, data = array_of [Some MINE, Some 0, Some 0, Some 0],
        data_length = 4, mineCount = 1\<rparr>"
  have b0: "Board.extend (new_Board 2 None) \<lparr>mineCount = 1\<rparr> = ?b0"
    by (simp add: Board.extend_def new_Board_def array_of_Nil)
  have p1: "visit [(0, 0), (0, 1), (1, 0), (1, 1)] fst setMines_clear (?b0, 1) = Some (True, (?b1, 0))"
    by (simp add: setMines_clear_def setTile_def getIndex_def Let_def array_of_snoc)
  have sh: "snd (shuffle (\<lambda>i. i) ?b1) = ?b1"
    by (simp add: shuffle_def Let_def shuffle_while.simps[of _ 4] shuffle_while.simps[of _ 3]
        shuffle_while.simps[of _ 2] shuffle_while.simps[of _ "Suc 0"] array_of_upd array_of_def)
  have inc: "incrementAdjacentTiles ?b1 0 0 = Some (mineBoard game_2x2)"
    by (simp add: incrementAdjacentTiles_visit neighbours_2x2 incrementAdjacentTiles_callback_def
        getTile_def getIndex_def setTile_def Let_def tile_ge_def array_of_upd array_of_def
        game_2x2_def)
  have p2: "visit [(0, 0), (0, 1), (1, 0), (1, 1)] (\<lambda>s. s) setMines_count ?b1
      = Some (True, mineBoard game_2x2)"
    by (simp add: setMines_count_def inc getTile_def getIndex_def)
       (simp add: game_2x2_def array_of_def)
  have c0: "cells ?b0 = [(0, 0), (0, 1), (1, 0), (1, 1)]" by (simp add: cells_2x2)
  have c1: "cells ?b1 = [(0, 0), (0, 1), (1, 0), (1, 1)]" by (simp add: cells_2x2)
  show ?thesis
    unfolding new_MineBoard_def b0 setMines_visit c0 p1
    by (simp only: Let_def sh c1 p2 option.case prod.case option.map_sel option.simps snd_conv)
qed

lemma new_UserBoard_2x2: "new_UserBoard 2 None = Some (userBoard game_2x2)"
proof -
  let ?b0 = "\<lparr>rowCount = 2, colCount = 2, data = array_of [], data_length = 0,
      flagCount = 0, unknownCount = 0\<rparr>"
  have b0: "Board.extend (new_Board 2 None) \<lparr>flagCount = 0, unknownCount = 0\<rparr> = ?b0"
    by (simp add: Board.extend_def new_Board_def array_of_Nil)
  have c0: "cells ?b0 = [(0, 0), (0, 1), (1, 0), (1, 1)]" by (simp add: cells_2x2)
  have "visit [(0, 0), (0, 1), (1, 0), (1, 1)] (\<lambda>s. s) initBoard_callback ?b0
      = Some (True, userBoard game_2x2)"
    by (simp add: initBoard_callback_def UserBoard_setTile_def setTile_def getTile_def getIndex_def
        Let_def array_of_snoc array_of_def game_2x2_def)
  then show ?thesis
    unfolding new_UserBoard_def initBoard_def b0 forEachTile_visit[OF keeps_dims_initBoard] c0
    by simp
qed

lemma new_Game_2x2: "new_Game (\<lambda>i. i) 1 2 = Some game_2x2"
  by (simp add: new_Game_def new_MineBoard_2x2 new_UserBoard_2x2 game_2x2_def)


section \<open>Reveals\<close>

lemma revealTile_ret:
  "revealTile fuel g r c = Some (ret, g') \<Longrightarrow>
     ret = JUndefined \<or> ret = JNull \<or> ret = JError ''mine revealed''"
  by (cases fuel) (auto simp: Let_def split: if_splits option.splits)

lemma visit_revealTile:
  "visit ps mineBoard (\<lambda>s r c t. revealTile fuel s r c) g = map_option (Pair True) (reveal_all fuel ps g)"
proof (induction ps arbitrary: g)
  case Nil
  then show ?case by simp
next
  case (Cons p ps)
  obtain r c where p: "p = (r, c)" by (cases p)
  show ?case
  proof (cases "revealTile fuel g r c")
    case None
    then show ?thesis by (simp add: p)
  next
    case (Some a)
    obtain ret g1 where a: "a = (ret, g1)" by (cases a)
    from revealTile_ret[of fuel g r c ret g1] Some a have "ret \<noteq> JBool False" by auto
    with Some a Cons.IH[of g1] show ?thesis by (simp add: p)
  qed
qed

lemma mineBoard_reveal_write [simp]: "mineBoard (reveal_write g r c) = mineBoard g"
  by (simp add: reveal_write_def)

lemma revealTile_Suc:
  "revealTile (Suc fuel) g row col =
     (if \<not> unrevealed (userBoard g) row col then Some (JUndefined, g)
      else if getTile (mineBoard g) row col = Some MINE
        then Some (JError ''mine revealed'', reveal_write g row col)
      else if getTile (mineBoard g) row col = Some 0
        then map_option (Pair JNull)
               (reveal_all fuel (neighbours (mineBoard g) row col) (reveal_write g row col))
      else Some (JNull, reveal_write g row col))"
  by (auto simp: Let_def unrevealed_def reveal_write_def forEachBoundaryTile_visit visit_revealTile
      split: option.splits)

declare revealTile.simps(2) [simp del]

lemma reveal_all_invariant:
  assumes IH: "\<And>g r c ret g'. I g \<Longrightarrow> in_bounds mb r c \<Longrightarrow>
      revealTile fuel g r c = Some (ret, g') \<Longrightarrow> I g'"
  shows "I g \<Longrightarrow> (\<forall>(r, c) \<in> set ps. in_bounds mb r c) \<Longrightarrow> reveal_all fuel ps g = Some g' \<Longrightarrow> I g'"
proof (induction ps arbitrary: g)
  case Nil
  then show ?case by simp
next
  case (Cons p ps)
  obtain r c where p: "p = (r, c)" by (cases p)
  from Cons.prems(3) obtain ret g1 where r1: "revealTile fuel g r c = Some (ret, g1)"
    and rest: "reveal_all fuel ps g1 = Some g'"
    by (auto simp: p split: option.splits)
  from IH[OF Cons.prems(1) _ r1] Cons.prems(2) have "I g1" by (simp add: p)
  from Cons.IH[OF this _ rest] Cons.prems(2) show ?case by simp
qed

lemma revealTile_invariant:
  assumes step: "\<And>b r c. P b \<Longrightarrow> in_bounds mb r c \<Longrightarrow> unrevealed b r c \<Longrightarrow>
      P (UserBoard_setTile b r c (getTile mb r c))"
  shows "mineBoard g = mb \<Longrightarrow> P (userBoard g) \<Longrightarrow> in_bounds mb r c \<Longrightarrow>
     revealTile fuel g r c = Some (ret, g') \<Longrightarrow> mineBoard g' = mb \<and> P (userBoard g')"
proof (induction fuel arbitrary: g r c ret g')
  case 0
  then show ?case by simp
next
  case (Suc fuel)
  let ?I = "\<lambda>g. mineBoard g = mb \<and> P (userBoard g)"
  show ?case
  proof (cases "unrevealed (userBoard g) r c")
    case False
    with Suc.prems show ?thesis by (simp add: revealTile_Suc)
  next
    case True
    let ?g1 = "reveal_write g r c"
    from step[OF Suc.prems(2,3) True] Suc.prems(1) have I1: "?I ?g1"
      by (simp add: reveal_write_def)
    show ?thesis
    proof (cases "getTile (mineBoard g) r c = Some 0")
      case False
      with Suc.prems(4) True I1 show ?thesis
        by (auto simp: revealTile_Suc split: if_splits)
    next
      case z: True
      with Suc.prems(4) True have ra: "reveal_all fuel (neighbours (mineBoard g) r c) ?g1 = Some g'"
        by (auto simp: revealTile_Suc)
      have nb: "\<forall>(r', c') \<in> set (neighbours (mineBoard g) r c). in_bounds mb r' c'"
        using Suc.prems(1) by auto
      have "?I g'"
      proof (rule reveal_all_invariant[where I = ?I, OF _ I1 nb ra])
        fix g r c ret g'
        assume "?I g" "in_bounds mb r c" "revealTile fuel g r c = Some (ret, g')"
        then show "?I g'" using Suc.IH[of g r c ret g'] by blast
      qed
      then show ?thesis .
    qed
  qed
qed

lemma hidden_count_write:
  assumes "in_bounds b r c" "unrevealed b r c"
  shows "hidden_count (UserBoard_setTile b r c t) \<le> hidden_count b"
    and "t = Some 0 \<Longrightarrow> hidden_count (UserBoard_setTile b r c t) < hidden_count b"
proof -
  let ?H = "\<lambda>t::tile. t = Some UNKNOWN \<or> t = Some FLAG"
  from assms(2) have old: "of_bool (?H (getTile b r c)) = (1::int)"
    unfolding unrevealed_def by (cases "getTile b r c = Some UNKNOWN") simp_all
  have *: "int (hidden_count (UserBoard_setTile b r c t))
      = int (hidden_count b) - 1 + (if ?H t then 1 else 0)"
    unfolding hidden_count_def count_tiles_UserBoard_setTile[OF assms(1)] old
    by (cases "t = Some UNKNOWN"; cases "t = Some FLAG"; simp)
  show "hidden_count (UserBoard_setTile b r c t) \<le> hidden_count b"
    using * by (cases "?H t") simp_all
  show "hidden_count (UserBoard_setTile b r c t) < hidden_count b" if "t = Some 0"
    using * that by simp
qed

lemma in_bounds_dims:
  "rowCount b = rowCount b' \<Longrightarrow> colCount b = colCount b' \<Longrightarrow> in_bounds b r c = in_bounds b' r c"
  by (simp add: in_bounds_def)

lemma revealTile_hidden_count:
  assumes "same_dims g" "in_bounds (mineBoard g) r c" "revealTile fuel g r c = Some (ret, g')"
  shows "mineBoard g' = mineBoard g \<and> same_dims g'
     \<and> hidden_count (userBoard g') \<le> hidden_count (userBoard g)"
proof -
  let ?mb = "mineBoard g"
  let ?P = "\<lambda>b. rowCount b = rowCount ?mb \<and> colCount b = colCount ?mb
      \<and> hidden_count b \<le> hidden_count (userBoard g)"
  have "mineBoard g' = ?mb \<and> ?P (userBoard g')"
  proof (rule revealTile_invariant[where P = ?P and mb = ?mb, OF _ refl _ assms(2,3)])
    show "?P (userBoard g)" using assms(1) by (simp add: same_dims_def)
  next
    fix b :: UserBoard and r c
    assume P: "?P b" and ib: "in_bounds ?mb r c" and u: "unrevealed b r c"
    from P ib have "in_bounds b r c" by (simp add: in_bounds_def)
    from hidden_count_write(1)[OF this u] P
    show "?P (UserBoard_setTile b r c (getTile ?mb r c))" by (auto intro: order_trans)
  qed
  then show ?thesis by (simp add: same_dims_def)
qed

lemma reveal_all_returns:
  assumes IH: "\<And>g r c. same_dims g \<Longrightarrow> mineBoard g = mb \<Longrightarrow> in_bounds mb r c \<Longrightarrow>
      hidden_count (userBoard g) < fuel \<Longrightarrow> \<exists>ret g'. revealTile fuel g r c = Some (ret, g')"
  shows "same_dims g \<Longrightarrow> mineBoard g = mb \<Longrightarrow> (\<forall>(r, c) \<in> set ps. in_bounds mb r c) \<Longrightarrow>
     hidden_count (userBoard g) < fuel \<Longrightarrow> \<exists>g'. reveal_all fuel ps g = Some g'"
proof (induction ps arbitrary: g)
  case Nil
  then show ?case by simp
next
  case (Cons p ps)
  obtain r c where p: "p = (r, c)" by (cases p)
  from Cons.prems(3) have ib: "in_bounds mb r c" by (simp add: p)
  from IH[OF Cons.prems(1,2) ib Cons.prems(4)] obtain ret g1 where
    r1: "revealTile fuel g r c = Some (ret, g1)" by blast
  from revealTile_hidden_count[OF Cons.prems(1) _ r1] ib Cons.prems(2,4)
  have "same_dims g1" "mineBoard g1 = mb" "hidden_count (userBoard g1) < fuel" by auto
  from Cons.IH[OF this(1,2) _ this(3)] Cons.prems(3) obtain g' where
    "reveal_all fuel ps g1 = Some g'" by auto
  with r1 show ?case by (simp add: p)
qed

lemma revealTile_returns:
  "same_dims g \<Longrightarrow> in_bounds (mineBoard g) r c \<Longrightarrow> hidden_count (userBoard g) < fuel \<Longrightarrow>
     \<exists>ret g'. revealTile fuel g r c = Some (ret, g')"
proof (induction fuel arbitrary: g r c)
  case 0
  then show ?case by simp
next
  case (Suc fuel)
  show ?case
  proof (cases "unrevealed (userBoard g) r c \<and> getTile (mineBoard g) r c = Some 0")
    case False
    then show ?thesis by (auto simp: revealTile_Suc)
  next
    case True
    let ?g1 = "reveal_write g r c"
    from Suc.prems(1,2) have ib: "in_bounds (userBoard g) r c"
      by (simp add: same_dims_def in_bounds_def)
    from hidden_count_write(2)[OF ib, of "Some 0"] True Suc.prems(3)
    have h1: "hidden_count (userBoard ?g1) < fuel" by (simp add: reveal_write_def)
    have sd: "same_dims ?g1" using Suc.prems(1) by (simp add: same_dims_def reveal_write_def)
    have nb: "\<forall>(r', c') \<in> set (neighbours (mineBoard g) r c). in_bounds (mineBoard g) r' c'"
      by auto
    have "\<exists>g'. reveal_all fuel (neighbours (mineBoard g) r c) ?g1 = Some g'"
    proof (rule reveal_all_returns[where mb = "mineBoard g", OF _ sd _ nb h1])
      show "mineBoard ?g1 = mineBoard g" by simp
    next
      fix g' r c
      assume "same_dims g'" "mineBoard g' = mineBoard g" "in_bounds (mineBoard g) r c"
        "hidden_count (userBoard g') < fuel"
      then show "\<exists>ret g''. revealTile fuel g' r c = Some (ret, g'')"
        using Suc.IH[of g' r c] by simp
    qed
    with True show ?thesis by (auto simp: revealTile_Suc)
  qed
qed

lemma zero_region_zero: "(r, c) \<in> zero_region b row col \<Longrightarrow> in_bounds b r c \<and> getTile b r c = Some 0"
  by (induction rule: zero_region.induct) auto

lemma zero_region_start_zero:
  "(r, c) \<in> zero_region b row col \<Longrightarrow> in_bounds b row col \<and> getTile b row col = Some 0"
  by (induction rule: zero_region.induct) auto

lemma zero_region_trans:
  "(r', c') \<in> zero_region b r c \<Longrightarrow> (r, c) \<in> zero_region b row col \<Longrightarrow>
     (r', c') \<in> zero_region b row col"
  by (induction rule: zero_region.induct) (auto intro: zero_region.step)

lemma spread_neighbour:
  assumes "in_bounds b row col" "getTile b row col = Some 0" "adjacent row col r c" "in_bounds b r c"
  shows "spread b r c \<subseteq> spread b row col"
proof -
  have start: "(row, col) \<in> zero_region b row col" using assms(1,2) by (rule zero_region.start)
  have rc: "(r, c) \<in> spread b row col"
    using start assms(3,4) by (auto simp: spread_def)
  have "(r', c') \<in> spread b row col"
    if "in_bounds b r' c'" "(z, w) \<in> zero_region b r c" "adjacent z w r' c'" for r' c' z w
  proof -
    from zero_region_start_zero[OF that(2)] have "getTile b r c = Some 0" by simp
    with start assms(3,4) have "(r, c) \<in> zero_region b row col" by (auto intro: zero_region.step)
    from zero_region_trans[OF that(2) this] that(1,3) show ?thesis by (auto simp: spread_def)
  qed
  note nb = this
  show ?thesis
  proof
    fix x assume x: "x \<in> spread b r c"
    obtain r' c' where [simp]: "x = (r', c')" by (cases x)
    show "x \<in> spread b row col"
    proof (cases "(r', c') = (r, c)")
      case True
      with rc show ?thesis by simp
    next
      case False
      with x obtain z w where "in_bounds b r' c'" "(z, w) \<in> zero_region b r c" "adjacent z w r' c'"
        by (auto simp: spread_def)
      from nb[OF this] show ?thesis by simp
    qed
  qed
qed

lemma reveal_all_invariant_mem:
  assumes IH: "\<And>g r c ret g'. I g \<Longrightarrow> (r, c) \<in> set ps \<Longrightarrow>
      revealTile fuel g r c = Some (ret, g') \<Longrightarrow> I g'"
  shows "I g \<Longrightarrow> reveal_all fuel ps g = Some g' \<Longrightarrow> I g'"
proof -
  have "I g \<Longrightarrow> set qs \<subseteq> set ps \<Longrightarrow> reveal_all fuel qs g = Some g' \<Longrightarrow> I g'" for qs
  proof (induction qs arbitrary: g)
    case Nil
    then show ?case by simp
  next
    case (Cons p qs)
    obtain r c where p: "p = (r, c)" by (cases p)
    from Cons.prems(3) obtain ret g1 where r1: "revealTile fuel g r c = Some (ret, g1)"
      and rest: "reveal_all fuel qs g1 = Some g'"
      by (auto simp: p split: option.splits)
    from IH[OF Cons.prems(1) _ r1] Cons.prems(2) have "I g1" by (simp add: p)
    from Cons.IH[OF this _ rest] Cons.prems(2) show ?case by simp
  qed
  from this[of ps] show "I g \<Longrightarrow> reveal_all fuel ps g = Some g' \<Longrightarrow> I g'" by simp
qed

lemma getTile_reveal_write:
  assumes "same_dims g" "in_bounds (mineBoard g) r c" "in_bounds (mineBoard g) r' c'"
  shows "getTile (userBoard (reveal_write g r c)) r' c' =
           (if (r', c') = (r, c) then getTile (mineBoard g) r c else getTile (userBoard g) r' c')"
proof -
  from assms have "in_bounds (userBoard g) r c" "in_bounds (userBoard g) r' c'"
    by (simp_all add: same_dims_def in_bounds_def)
  from getIndex_inj[OF this(2,1)] show ?thesis
    by (auto simp: reveal_write_def getTile_UserBoard_setTile)
qed

lemma same_dims_reveal_write [simp]: "same_dims (reveal_write g r c) = same_dims g"
  by (simp add: same_dims_def reveal_write_def)

text \<open>Soundness: a reveal changes no cell outside the spread of its cell.\<close>

lemma revealTile_frame:
  "same_dims g \<Longrightarrow> in_bounds (mineBoard g) r c \<Longrightarrow> revealTile fuel g r c = Some (ret, g') \<Longrightarrow>
     in_bounds (mineBoard g) r' c' \<Longrightarrow> (r', c') \<notin> spread (mineBoard g) r c \<Longrightarrow>
     getTile (userBoard g') r' c' = getTile (userBoard g) r' c'"
proof (induction fuel arbitrary: g r c ret g')
  case 0
  then show ?case by simp
next
  case (Suc fuel)
  let ?mb = "mineBoard g"
  show ?case
  proof (cases "unrevealed (userBoard g) r c")
    case False
    with Suc.prems show ?thesis by (simp add: revealTile_Suc)
  next
    case True
    let ?g1 = "reveal_write g r c"
    from Suc.prems(5) have ne: "(r', c') \<noteq> (r, c)" by (auto simp: spread_def)
    have w: "getTile (userBoard ?g1) r' c' = getTile (userBoard g) r' c'"
      using getTile_reveal_write[OF Suc.prems(1,2,4)] ne by auto
    show ?thesis
    proof (cases "getTile ?mb r c = Some 0")
      case False
      with Suc.prems(3) True w show ?thesis
        by (auto simp: revealTile_Suc split: if_splits)
    next
      case z: True
      with Suc.prems(3) True have ra: "reveal_all fuel (neighbours ?mb r c) ?g1 = Some g'"
        by (auto simp: revealTile_Suc)
      let ?I = "\<lambda>s. mineBoard s = ?mb \<and> same_dims s
          \<and> getTile (userBoard s) r' c' = getTile (userBoard g) r' c'"
      have "?I g'"
      proof (rule reveal_all_invariant_mem[where I = ?I, OF _ _ ra])
        show "?I ?g1" using w Suc.prems(1) by simp
      next
        fix s rn cn ret' s'
        assume I: "?I s" and mem: "(rn, cn) \<in> set (neighbours ?mb r c)"
          and rv: "revealTile fuel s rn cn = Some (ret', s')"
        from mem have ibn: "in_bounds ?mb rn cn" and adj: "adjacent r c rn cn" by auto
        from spread_neighbour[OF Suc.prems(2) z adj ibn] Suc.prems(5)
        have notin: "(r', c') \<notin> spread ?mb rn cn" by auto
        from I have sd: "same_dims s" and mb: "mineBoard s = ?mb" by auto
        from Suc.IH[OF sd _ rv] ibn notin Suc.prems(4) mb
        have "getTile (userBoard s') r' c' = getTile (userBoard s) r' c'" by simp
        moreover from revealTile_hidden_count[OF sd _ rv] ibn mb
        have "mineBoard s' = ?mb" "same_dims s'" by auto
        ultimately show "?I s'" using I by simp
      qed
      then show ?thesis by simp
    qed
  qed
qed

lemma adjacency_ok_wf: "adjacency_ok b \<Longrightarrow> solution_wf b"
  by (fastforce simp: adjacency_ok_def solution_wf_def unrevealed_def)

lemma reveal_all_prefix_invariant:
  assumes step: "\<And>s r c pre rest ret s'. ps = pre @ (r, c) # rest \<Longrightarrow> I pre s \<Longrightarrow>
      revealTile fuel s r c = Some (ret, s') \<Longrightarrow> I (pre @ [(r, c)]) s'"
    and init: "I [] g" and run: "reveal_all fuel ps g = Some g'"
  shows "I ps g'"
proof -
  have "ps = pre @ rest \<Longrightarrow> I pre s \<Longrightarrow> reveal_all fuel rest s = Some g' \<Longrightarrow> I ps g'" for pre rest s
  proof (induction rest arbitrary: pre s)
    case Nil
    then show ?case by simp
  next
    case (Cons p rest)
    obtain r c where p: "p = (r, c)" by (cases p)
    from Cons.prems(3) obtain ret s1 where r1: "revealTile fuel s r c = Some (ret, s1)"
      and rest: "reveal_all fuel rest s1 = Some g'"
      by (auto simp: p split: option.splits)
    from step[OF _ Cons.prems(2) r1, of rest] Cons.prems(1) have "I (pre @ [(r, c)]) s1"
      by (simp add: p)
    from Cons.IH[OF _ this rest] Cons.prems(1) show ?case by (simp add: p)
  qed
  from this[of "[]" ps g] init run show ?thesis by simp
qed

text \<open>What a reveal keeps: the dimensions, the solution, what revealed cells show.\<close>

lemma revealTile_keeps:
  assumes "same_dims g" "in_bounds (mineBoard g) r c" "revealTile fuel g r c = Some (ret, g')"
  shows "mineBoard g' = mineBoard g" "same_dims g'"
    and "consistent g \<Longrightarrow> consistent g'"
    and "\<And>r' c'. in_bounds (mineBoard g) r' c' \<Longrightarrow> \<not> unrevealed (userBoard g) r' c' \<Longrightarrow>
           getTile (userBoard g') r' c' = getTile (userBoard g) r' c'"
    and "\<And>r' c'. in_bounds (mineBoard g) r' c' \<Longrightarrow>
           getTile (userBoard g') r' c' = getTile (userBoard g) r' c'
           \<or> getTile (userBoard g') r' c' = getTile (mineBoard g) r' c'"
proof -
  let ?mb = "mineBoard g" and ?b0 = "userBoard g"
  let ?P = "\<lambda>b. rowCount b = rowCount ?mb \<and> colCount b = colCount ?mb
      \<and> (\<forall>r' c'. in_bounds ?mb r' c' \<longrightarrow>
            (\<not> unrevealed ?b0 r' c' \<longrightarrow> getTile b r' c' = getTile ?b0 r' c')
            \<and> (getTile b r' c' = getTile ?b0 r' c' \<or> getTile b r' c' = getTile ?mb r' c'))"
  have P: "mineBoard g' = ?mb \<and> ?P (userBoard g')"
  proof (rule revealTile_invariant[where P = ?P and mb = ?mb, OF _ refl _ assms(2,3)])
    show "?P ?b0" using assms(1) by (simp add: same_dims_def)
  next
    fix b :: UserBoard and r c
    assume P: "?P b" and ib: "in_bounds ?mb r c" and u: "unrevealed b r c"
    from P ib have ibb: "in_bounds b r c" by (simp add: in_bounds_def)
    have "getTile (UserBoard_setTile b r c (getTile ?mb r c)) r' c'
        = (if (r', c') = (r, c) then getTile ?mb r c else getTile b r' c')"
      if "in_bounds ?mb r' c'" for r' c'
    proof -
      from that P have "in_bounds b r' c'" by (simp add: in_bounds_def)
      from getIndex_inj[OF this ibb] show ?thesis by (auto simp: getTile_UserBoard_setTile)
    qed
    moreover have "unrevealed ?b0 r c"
    proof -
      from P ib have "\<not> unrevealed ?b0 r c \<longrightarrow> getTile b r c = getTile ?b0 r c" by blast
      with u show ?thesis by (auto simp: unrevealed_def)
    qed
    ultimately show "?P (UserBoard_setTile b r c (getTile ?mb r c))" using P by auto
  qed
  then show mb: "mineBoard g' = ?mb" and sd: "same_dims g'" by (simp_all add: same_dims_def)
  from P show keep: "\<And>r' c'. in_bounds ?mb r' c' \<Longrightarrow> \<not> unrevealed ?b0 r' c' \<Longrightarrow>
           getTile (userBoard g') r' c' = getTile ?b0 r' c'" by blast
  from P show either: "\<And>r' c'. in_bounds ?mb r' c' \<Longrightarrow>
           getTile (userBoard g') r' c' = getTile ?b0 r' c'
           \<or> getTile (userBoard g') r' c' = getTile ?mb r' c'" by blast
  show "consistent g'" if c: "consistent g"
    unfolding consistent_def mb
  proof (intro ballI, clarify)
    fix r' c' assume m: "(r', c') \<in> set (cells ?mb)"
      and nu: "getTile (userBoard g') r' c' \<noteq> getTile ?mb r' c'"
    then have ib: "in_bounds ?mb r' c'" by simp
    from either[OF ib] nu have same: "getTile (userBoard g') r' c' = getTile ?b0 r' c'" by simp
    from c m have "unrevealed ?b0 r' c' \<or> getTile ?b0 r' c' = getTile ?mb r' c'"
      by (auto simp: consistent_def)
    with same nu show "unrevealed (userBoard g') r' c'" by (auto simp: unrevealed_def)
  qed
qed

lemma revealed_after_write:
  assumes "solution_wf (mineBoard g)" "same_dims g" "in_bounds (mineBoard g) r c"
  shows "\<not> unrevealed (userBoard (reveal_write g r c)) r c"
proof -
  from assms(1,3) have "\<not> unrevealed (mineBoard g) r c" by (auto simp: solution_wf_def)
  with getTile_reveal_write[OF assms(2,3,3)] show ?thesis by (simp add: unrevealed_def)
qed

lemma closed_exceptI:
  assumes "\<And>z w n m. in_bounds (mineBoard g) z w \<Longrightarrow> (z, w) \<notin> A \<Longrightarrow>
      getTile (userBoard g) z w = Some 0 \<Longrightarrow> in_bounds (mineBoard g) n m \<Longrightarrow>
      adjacent z w n m \<Longrightarrow> unrevealed (userBoard g) n m \<Longrightarrow> False"
  shows "closed_except A g"
  unfolding closed_except_def using assms by auto

lemma closed_exceptD:
  assumes "closed_except A g" "in_bounds (mineBoard g) z w" "(z, w) \<notin> A"
    "getTile (userBoard g) z w = Some 0" "in_bounds (mineBoard g) n m" "adjacent z w n m"
  shows "\<not> unrevealed (userBoard g) n m"
  using assms unfolding closed_except_def by fastforce

lemma closed_except_write:
  assumes sd: "same_dims g" and ib: "in_bounds (mineBoard g) r c" and wf: "solution_wf (mineBoard g)"
    and u: "unrevealed (userBoard g) r c" and cl: "closed_except A g"
  shows "closed_except (insert (r, c) A) (reveal_write g r c)"
proof (rule closed_exceptI)
  fix z w n m
  assume ibz: "in_bounds (mineBoard (reveal_write g r c)) z w" and zn: "(z, w) \<notin> insert (r, c) A"
    and zero: "getTile (userBoard (reveal_write g r c)) z w = Some 0"
    and ibn: "in_bounds (mineBoard (reveal_write g r c)) n m" and adj: "adjacent z w n m"
    and un: "unrevealed (userBoard (reveal_write g r c)) n m"
  from ibz ibn have ibz: "in_bounds (mineBoard g) z w" and ibn: "in_bounds (mineBoard g) n m"
    by simp_all
  from zn have ne: "(z, w) \<noteq> (r, c)" and zA: "(z, w) \<notin> A" by auto
  from getTile_reveal_write[OF sd ib ibz] ne zero have "getTile (userBoard g) z w = Some 0" by auto
  from closed_exceptD[OF cl ibz zA this ibn adj] have rev: "\<not> unrevealed (userBoard g) n m" .
  show False
  proof (cases "(n, m) = (r, c)")
    case True
    with revealed_after_write[OF wf sd ib] un show ?thesis by simp
  next
    case False
    with getTile_reveal_write[OF sd ib ibn] have
      "getTile (userBoard (reveal_write g r c)) n m = getTile (userBoard g) n m" by auto
    with un rev show ?thesis by (simp add: unrevealed_def)
  qed
qed

lemma closed_except_mono: "closed_except A g \<Longrightarrow> A \<subseteq> B \<Longrightarrow> closed_except B g"
  unfolding closed_except_def by blast

text \<open>
  Completeness: a reveal leaves every revealed cell showing \<open>0\<close> with all its neighbours
  revealed, the cells whose own reveal is still running (\<open>A\<close>) apart.
\<close>

lemma revealTile_closed:
  "solution_wf (mineBoard g) \<Longrightarrow> same_dims g \<Longrightarrow> in_bounds (mineBoard g) r c \<Longrightarrow>
     closed_except A g \<Longrightarrow> revealTile fuel g r c = Some (ret, g') \<Longrightarrow>
     closed_except A g' \<and> \<not> unrevealed (userBoard g') r c"
proof (induction fuel arbitrary: g r c ret g' A)
  case 0
  then show ?case by simp
next
  case (Suc fuel)
  let ?mb = "mineBoard g"
  note wf = Suc.prems(1) and sd = Suc.prems(2) and ib = Suc.prems(3) and cl = Suc.prems(4)
  show ?case
  proof (cases "unrevealed (userBoard g) r c")
    case False
    with Suc.prems show ?thesis by (simp add: revealTile_Suc)
  next
    case u: True
    let ?g1 = "reveal_write g r c"
    have cl1: "closed_except (insert (r, c) A) ?g1" by (rule closed_except_write[OF sd ib wf u cl])
    have rev1: "\<not> unrevealed (userBoard ?g1) r c" by (rule revealed_after_write[OF wf sd ib])
    have t1: "getTile (userBoard ?g1) r c = getTile ?mb r c"
      using getTile_reveal_write[OF sd ib ib] by simp
    show ?thesis
    proof (cases "getTile ?mb r c = Some 0")
      case False
      with Suc.prems(5) u have g': "g' = ?g1" by (auto simp: revealTile_Suc split: if_splits)
      have "closed_except A ?g1"
      proof (rule closed_exceptI)
        fix z w n m
        assume ibz: "in_bounds (mineBoard ?g1) z w" and zA: "(z, w) \<notin> A"
          and zero: "getTile (userBoard ?g1) z w = Some 0"
          and ibn: "in_bounds (mineBoard ?g1) n m" and adj: "adjacent z w n m"
          and un: "unrevealed (userBoard ?g1) n m"
        from zero t1 False have "(z, w) \<noteq> (r, c)" by auto
        with zA have "(z, w) \<notin> insert (r, c) A" by simp
        from closed_exceptD[OF cl1 ibz this zero ibn adj] un show False by simp
      qed
      with rev1 g' show ?thesis by simp
    next
      case z: True
      with Suc.prems(5) u have ra: "reveal_all fuel (neighbours ?mb r c) ?g1 = Some g'"
        by (auto simp: revealTile_Suc)
      let ?I = "\<lambda>pre s. mineBoard s = ?mb \<and> same_dims s \<and> closed_except (insert (r, c) A) s
          \<and> getTile (userBoard s) r c = Some 0
          \<and> (\<forall>(n, m) \<in> set pre. \<not> unrevealed (userBoard s) n m)"
      have I: "?I (neighbours ?mb r c) g'"
      proof (rule reveal_all_prefix_invariant[where I = ?I, OF _ _ ra])
        show "?I [] ?g1" using cl1 t1 z sd by simp
      next
        fix s rn cn pre rest ret' s'
        assume ps: "neighbours ?mb r c = pre @ (rn, cn) # rest" and I: "?I pre s"
          and rv: "revealTile fuel s rn cn = Some (ret', s')"
        have "(rn, cn) \<in> set (neighbours ?mb r c)" by (simp add: ps)
        then have ibn: "in_bounds (mineBoard s) rn cn" using I by simp
        from I have mb: "mineBoard s = ?mb" and sds: "same_dims s" by auto
        from Suc.IH[of s rn cn "insert (r, c) A" ret' s'] wf sds ibn I rv mb
        have c': "closed_except (insert (r, c) A) s'" and rn: "\<not> unrevealed (userBoard s') rn cn"
          by auto
        note k = revealTile_keeps[OF sds ibn rv]
        have keep: "getTile (userBoard s') a b = getTile (userBoard s) a b"
          if "in_bounds ?mb a b" "\<not> unrevealed (userBoard s) a b" for a b
          using k(4)[of a b] that mb by simp
        have "getTile (userBoard s') r c = Some 0"
          using keep[OF ib] I by (simp add: unrevealed_def)
        moreover have "\<not> unrevealed (userBoard s') n m" if "(n, m) \<in> set pre" for n m
        proof -
          from that ps have "(n, m) \<in> set (neighbours ?mb r c)" by simp
          then have "in_bounds ?mb n m" by simp
          moreover from I that have "\<not> unrevealed (userBoard s) n m" by auto
          ultimately show ?thesis using keep[of n m] by (simp add: unrevealed_def)
        qed
        ultimately show "?I (pre @ [(rn, cn)]) s'" using k(1,2) mb c' rn by auto
      qed
      then have mb': "mineBoard g' = ?mb" by simp
      from I have cl': "closed_except (insert (r, c) A) g'"
        and nb': "\<forall>(n, m) \<in> set (neighbours ?mb r c). \<not> unrevealed (userBoard g') n m"
        by blast+
      have "closed_except A g'"
      proof (rule closed_exceptI)
        fix z w n m
        assume ibz: "in_bounds (mineBoard g') z w" and zA: "(z, w) \<notin> A"
          and zero: "getTile (userBoard g') z w = Some 0"
          and ibn: "in_bounds (mineBoard g') n m" and adj: "adjacent z w n m"
          and un: "unrevealed (userBoard g') n m"
        show False
        proof (cases "(z, w) = (r, c)")
          case True
          with ibn adj have "(n, m) \<in> set (neighbours ?mb r c)" by (simp add: mb')
          with nb' un show ?thesis by blast
        next
          case False
          with zA have "(z, w) \<notin> insert (r, c) A" by simp
          from closed_exceptD[OF cl' ibz this zero ibn adj] un show ?thesis by simp
        qed
      qed
      moreover from I have "\<not> unrevealed (userBoard g') r c" by (simp add: unrevealed_def)
      ultimately show ?thesis by simp
    qed
  qed
qed

lemma zero_no_mine_neighbour:
  assumes "adjacency_ok b" "in_bounds b r c" "getTile b r c = Some 0"
    "in_bounds b r' c'" "adjacent r c r' c'"
  shows "getTile b r' c' \<noteq> Some MINE"
proof -
  from assms(2) have "(r, c) \<in> set (cells b)" by simp
  with assms(1) have "getTile b r c = Some MINE \<or> getTile b r c = Some (int (mine_neighbours b r c))"
    unfolding adjacency_ok_def by blast
  with assms(3) have "mine_neighbours b r c = 0" by simp
  then have "filter (\<lambda>(r, c). getTile b r c = Some MINE) (neighbours b r c) = []"
    by (simp add: mine_neighbours_def)
  moreover have "(r', c') \<in> set (neighbours b r c)" using assms(4,5) by simp
  ultimately show ?thesis by (auto simp: filter_empty_conv)
qed

lemma zero_region_cases:
  "(r, c) \<in> zero_region b row col \<Longrightarrow>
     (r, c) = (row, col) \<or> (\<exists>(z, w) \<in> zero_region b row col. adjacent z w r c)"
  by (induction rule: zero_region.induct) auto

lemma spread_cascade:
  assumes "adjacency_ok b" "in_bounds b row col" "getTile b row col = Some 0"
  shows "spread b row col = zero_region b row col \<union> ring b row col"
proof (intro set_eqI iffI)
  fix x assume x: "x \<in> spread b row col"
  obtain r' c' where [simp]: "x = (r', c')" by (cases x)
  have start: "(row, col) \<in> zero_region b row col" using assms(2,3) by (rule zero_region.start)
  show "x \<in> zero_region b row col \<union> ring b row col"
  proof (cases "(r', c') = (row, col)")
    case True
    with start show ?thesis by simp
  next
    case False
    with x obtain z w where ib: "in_bounds b r' c'" and zw: "(z, w) \<in> zero_region b row col"
      and adj: "adjacent z w r' c'" by (auto simp: spread_def)
    show ?thesis
    proof (cases "getTile b r' c' = Some 0")
      case True
      from zero_region.step[OF zw adj ib True] show ?thesis by simp
    next
      case nz: False
      from zero_region_zero[OF zw] have "in_bounds b z w" "getTile b z w = Some 0" by simp_all
      from zero_no_mine_neighbour[OF assms(1) this ib adj] nz ib zw adj
      show ?thesis by (auto simp: ring_def)
    qed
  qed
next
  fix x assume x: "x \<in> zero_region b row col \<union> ring b row col"
  obtain r' c' where [simp]: "x = (r', c')" by (cases x)
  from x show "x \<in> spread b row col"
  proof
    assume "x \<in> zero_region b row col"
    then have zr: "(r', c') \<in> zero_region b row col" by simp
    from zero_region_cases[OF zr] zero_region_zero[OF zr] show ?thesis
      by (auto simp: spread_def)
  next
    assume "x \<in> ring b row col"
    then show ?thesis by (auto simp: ring_def spread_def)
  qed
qed

lemma consistentD:
  "consistent g \<Longrightarrow> in_bounds (mineBoard g) r c \<Longrightarrow> \<not> unrevealed (userBoard g) r c \<Longrightarrow>
     getTile (userBoard g) r c = getTile (mineBoard g) r c"
  by (auto simp: consistent_def)

lemma revealTile_game_inv:
  assumes inv: "game_inv g" and ib: "in_bounds (mineBoard g) row col"
    and rv: "revealTile fuel g row col = Some (ret, g')"
  shows "game_inv g'" "mineBoard g' = mineBoard g"
proof -
  from inv have sd: "same_dims g" and adj: "adjacency_ok (mineBoard g)" and con: "consistent g"
    and cl: "closed_except {} g" by (simp_all add: game_inv_def)
  note k = revealTile_keeps[OF sd ib rv]
  from revealTile_closed[OF adjacency_ok_wf[OF adj] sd ib cl rv] have "closed_except {} g'" by simp
  with k(1,2) k(3)[OF con] adj show "game_inv g'" by (simp add: game_inv_def)
  show "mineBoard g' = mineBoard g" by (rule k(1))
qed

lemma revealTile_cascade_result:
  assumes inv: "game_inv g" and ib: "in_bounds (mineBoard g) row col"
    and zero: "getTile (mineBoard g) row col = Some 0"
    and rv: "revealTile fuel g row col = Some (ret, g')"
    and ibq: "in_bounds (mineBoard g) r c"
  shows "getTile (userBoard g') r c =
           (if (r, c) \<in> zero_region (mineBoard g) row col \<union> ring (mineBoard g) row col
            then getTile (mineBoard g) r c else getTile (userBoard g) r c)"
proof -
  let ?mb = "mineBoard g"
  from inv have sd: "same_dims g" and adj: "adjacency_ok ?mb" and con: "consistent g"
    and cl: "closed_except {} g" by (simp_all add: game_inv_def)
  note wf = adjacency_ok_wf[OF adj]
  note k = revealTile_keeps[OF sd ib rv]
  note con' = k(3)[OF con]
  from revealTile_closed[OF wf sd ib cl rv]
  have cl': "closed_except {} g'" and rev0: "\<not> unrevealed (userBoard g') row col" by simp_all
  have sp: "spread ?mb row col = zero_region ?mb row col \<union> ring ?mb row col"
    by (rule spread_cascade[OF adj ib zero])
  have region: "\<not> unrevealed (userBoard g') z w \<and> getTile (userBoard g') z w = Some 0"
    if "(z, w) \<in> zero_region ?mb row col" for z w
    using that
  proof (induction rule: zero_region.induct)
    case start
    from consistentD[OF con' _ rev0] ib zero rev0 show ?case by (simp add: k(1))
  next
    case (step z w n m)
    from zero_region_zero[OF step.hyps(1)] have ibz: "in_bounds (mineBoard g') z w"
      by (simp add: k(1))
    from step.hyps(3) have ibn: "in_bounds (mineBoard g') n m" by (simp add: k(1))
    from closed_exceptD[OF cl' ibz _ _ ibn step.hyps(2)] step.IH
    have rev: "\<not> unrevealed (userBoard g') n m" by simp
    from consistentD[OF con' ibn rev] step.hyps(4) rev show ?case by (simp add: k(1))
  qed
  show ?thesis
  proof (cases "(r, c) \<in> spread ?mb row col")
    case False
    from revealTile_frame[OF sd ib rv ibq False] False sp show ?thesis by simp
  next
    case True
    have rev: "\<not> unrevealed (userBoard g') r c"
    proof (cases "(r, c) = (row, col)")
      case True
      with rev0 show ?thesis by simp
    next
      case False
      with True obtain z w where zw: "(z, w) \<in> zero_region ?mb row col" and a: "adjacent z w r c"
        by (auto simp: spread_def)
      from zero_region_zero[OF zw] have ibz: "in_bounds (mineBoard g') z w" by (simp add: k(1))
      from ibq have ibq': "in_bounds (mineBoard g') r c" by (simp add: k(1))
      from closed_exceptD[OF cl' ibz _ _ ibq' a] region[OF zw] show ?thesis by simp
    qed
    from ibq have "in_bounds (mineBoard g') r c" by (simp add: k(1))
    from consistentD[OF con' this rev] True sp show ?thesis by (simp add: k(1))
  qed
qed

lemma visit_countFlags:
  "visit ps (\<lambda>s. userBoard (fst s)) countFlags_callback (g, k) =
     Some (True, (g, k + int (length (filter (\<lambda>(r, c). getTile (userBoard g) r c = Some FLAG) ps))))"
  by (induction ps arbitrary: k) (auto simp: countFlags_callback_def)

lemma visit_revealUnknown:
  "visit ps userBoard (revealUnknown_callback fuel) g = chord_each fuel ps g"
proof (induction ps arbitrary: g)
  case Nil
  then show ?case by simp
next
  case (Cons p ps)
  obtain r c where p: "p = (r, c)" by (cases p)
  show ?case
  proof (cases "getTile (userBoard g) r c = Some UNKNOWN")
    case False
    with Cons.IH show ?thesis by (simp add: p revealUnknown_callback_def)
  next
    case True
    show ?thesis
    proof (cases "revealTile fuel g r c")
      case None
      with True show ?thesis by (simp add: p revealUnknown_callback_def)
    next
      case (Some a)
      obtain ret g1 where a: "a = (ret, g1)" by (cases a)
      from revealTile_ret[of fuel g r c ret g1] Some a
      have "loosely_null ret \<longleftrightarrow> ret \<noteq> JError ''mine revealed''"
        by (auto simp: loosely_null_def)
      with True Some a Cons.IH[of g1] show ?thesis
        by (simp add: p revealUnknown_callback_def)
    qed
  qed
qed

lemma revealUnknownAdjacent_chordReveal:
  assumes t: "getTile (userBoard g) row col = Some t"
  shows "revealUnknownAdjacent fuel g row col = chordReveal fuel g row col t"
proof -
  have cf: "forEachBoundaryTile (\<lambda>s. userBoard (fst s)) row col countFlags_callback (g, 0) =
      Some (True, (g, int (flagged_neighbours (userBoard g) row col)))"
    by (simp add: forEachBoundaryTile_visit visit_countFlags flagged_neighbours_def)
  have rv: "forEachBoundaryTile userBoard row col (revealUnknown_callback fuel) g =
      chord_each fuel (neighbours (userBoard g) row col) g"
    by (simp add: forEachBoundaryTile_visit visit_revealUnknown)
  show ?thesis
  proof (cases "t < 0")
    case True
    then show ?thesis
      unfolding revealUnknownAdjacent_def chordReveal_def t Let_def tile_lt_def by simp
  next
    case False
    note nneg = this
    show ?thesis
    proof (cases "int (flagged_neighbours (userBoard g) row col) < t")
      case True
      with nneg show ?thesis
        unfolding revealUnknownAdjacent_def chordReveal_def t Let_def tile_lt_def tile_gt_def cf
        by simp
    next
      case False
      with nneg show ?thesis
        unfolding revealUnknownAdjacent_def chordReveal_def t Let_def tile_lt_def tile_gt_def cf
        by (cases "chord_each fuel (neighbours (userBoard g) row col) g") (auto simp: rv)
    qed
  qed
qed

lemma chord_each_invariant:
  assumes step: "\<And>s r c ret s'. I s \<Longrightarrow> (r, c) \<in> set ps \<Longrightarrow>
      revealTile fuel s r c = Some (ret, s') \<Longrightarrow> I s'"
  shows "I g \<Longrightarrow> chord_each fuel ps g = Some (ok, g') \<Longrightarrow> I g'"
proof -
  have "I g \<Longrightarrow> set qs \<subseteq> set ps \<Longrightarrow> chord_each fuel qs g = Some (ok, g') \<Longrightarrow> I g'" for qs
  proof (induction qs arbitrary: g)
    case Nil
    then show ?case by simp
  next
    case (Cons p qs)
    obtain r c where p: "p = (r, c)" by (cases p)
    show ?case
    proof (cases "getTile (userBoard g) r c = Some UNKNOWN")
      case False
      with Cons show ?thesis by (simp add: p)
    next
      case True
      with Cons.prems(3) obtain ret g1 where r1: "revealTile fuel g r c = Some (ret, g1)"
        by (auto simp: p split: option.splits)
      from step[OF Cons.prems(1) _ r1] Cons.prems(2) have I1: "I g1" by (simp add: p)
      show ?thesis
      proof (cases "ret = JError ''mine revealed''")
        case e: True
        with Cons.prems(3) True r1 I1 show ?thesis by (simp add: p)
      next
        case False
        with Cons.prems(3) True r1 have "chord_each fuel qs g1 = Some (ok, g')" by (simp add: p)
        from Cons.IH[OF I1 _ this] Cons.prems(2) show ?thesis by simp
      qed
    qed
  qed
  from this[of ps] show "I g \<Longrightarrow> chord_each fuel ps g = Some (ok, g') \<Longrightarrow> I g'" by simp
qed

lemma revealUnknownAdjacent_cases:
  assumes "revealUnknownAdjacent fuel g row col = Some (ret, g')"
  shows "g' = g \<or> (\<exists>ok. chord_each fuel (neighbours (userBoard g) row col) g = Some (ok, g'))"
proof -
  have cf: "forEachBoundaryTile (\<lambda>s. userBoard (fst s)) row col countFlags_callback (g, 0) =
      Some (True, (g, int (flagged_neighbours (userBoard g) row col)))"
    by (simp add: forEachBoundaryTile_visit visit_countFlags flagged_neighbours_def)
  have rv: "forEachBoundaryTile userBoard row col (revealUnknown_callback fuel) g =
      chord_each fuel (neighbours (userBoard g) row col) g"
    by (simp add: forEachBoundaryTile_visit visit_revealUnknown)
  show ?thesis
  proof (cases "tile_lt (getTile (userBoard g) row col) 0")
    case True
    with assms show ?thesis unfolding revealUnknownAdjacent_def Let_def by simp
  next
    case nlt: False
    show ?thesis
    proof (cases "tile_gt (getTile (userBoard g) row col)
        (int (flagged_neighbours (userBoard g) row col))")
      case True
      with assms nlt show ?thesis unfolding revealUnknownAdjacent_def Let_def cf by simp
    next
      case False
      with assms nlt have
        "(case chord_each fuel (neighbours (userBoard g) row col) g of
            None \<Rightarrow> None
          | Some (success, g2) \<Rightarrow>
              if success then Some (JNull, g2)
              else Some (JError ''adajcent mine revealed'', g2)) = Some (ret, g')"
        unfolding revealUnknownAdjacent_def Let_def cf by (simp add: rv)
      then show ?thesis
        by (cases "chord_each fuel (neighbours (userBoard g) row col) g")
          (simp_all split: if_splits prod.splits)
    qed
  qed
qed

lemma revealUnknownAdjacent_invariant:
  assumes step: "\<And>s r c ret s'. I s \<Longrightarrow> in_bounds (userBoard g) r c \<Longrightarrow>
      revealTile fuel s r c = Some (ret, s') \<Longrightarrow> I s'"
    and "I g" "revealUnknownAdjacent fuel g row col = Some (ret, g')"
  shows "I g'"
proof -
  from revealUnknownAdjacent_cases[OF assms(3)] show ?thesis
  proof
    assume "g' = g"
    with assms(2) show ?thesis by simp
  next
    assume "\<exists>ok. chord_each fuel (neighbours (userBoard g) row col) g = Some (ok, g')"
    then obtain ok where c: "chord_each fuel (neighbours (userBoard g) row col) g = Some (ok, g')" ..
    show ?thesis
    proof (rule chord_each_invariant[where I = I, OF _ assms(2) c])
      fix s r c ret s'
      assume "I s" "(r, c) \<in> set (neighbours (userBoard g) row col)"
        "revealTile fuel s r c = Some (ret, s')"
      then show "I s'" using step[of s r c ret s'] by (simp add: in_bounds_def)
    qed
  qed
qed

lemma getTile_UserBoard_setTile_in_bounds:
  "in_bounds b r c \<Longrightarrow> in_bounds b r' c' \<Longrightarrow>
     getTile (UserBoard_setTile b r c t) r' c' = (if (r', c') = (r, c) then t else getTile b r' c')"
  using getIndex_inj[of b r' c' r c] by (auto simp: getTile_UserBoard_setTile)

lemma mineBoard_flagTile [simp]: "mineBoard (flagTile g row col) = mineBoard g"
  by (simp add: flagTile_def)

lemma dims_flagTile [simp]:
  "rowCount (userBoard (flagTile g row col)) = rowCount (userBoard g)"
  "colCount (userBoard (flagTile g row col)) = colCount (userBoard g)"
  by (simp_all add: flagTile_def)

lemma same_dims_flagTile [simp]: "same_dims (flagTile g row col) = same_dims g"
  by (simp add: same_dims_def)

lemma getTile_flagTile:
  assumes "in_bounds (userBoard g) row col" "in_bounds (userBoard g) r c"
  shows "getTile (userBoard (flagTile g row col)) r c =
     (if (r, c) = (row, col) \<and> getTile (userBoard g) row col = Some UNKNOWN then Some FLAG
      else if (r, c) = (row, col) \<and> getTile (userBoard g) row col = Some FLAG then Some UNKNOWN
      else getTile (userBoard g) r c)"
  using assms by (auto simp: flagTile_def getTile_UserBoard_setTile_in_bounds)

lemma unrevealed_flagTile:
  assumes "in_bounds (userBoard g) row col" "in_bounds (userBoard g) r c"
  shows "unrevealed (userBoard (flagTile g row col)) r c = unrevealed (userBoard g) r c"
  using getTile_flagTile[OF assms] by (auto simp: unrevealed_def)

lemma revealed_flagTile:
  assumes "in_bounds (userBoard g) row col" "in_bounds (userBoard g) r c"
    "\<not> unrevealed (userBoard g) r c"
  shows "getTile (userBoard (flagTile g row col)) r c = getTile (userBoard g) r c"
  using getTile_flagTile[OF assms(1,2)] assms(3) by (auto simp: unrevealed_def)

lemma counters_ok_flagTile:
  "counters_ok (userBoard g) \<Longrightarrow> in_bounds (userBoard g) row col \<Longrightarrow>
     counters_ok (userBoard (flagTile g row col))"
  by (simp add: flagTile_def counters_ok_UserBoard_setTile)

lemma consistentI:
  assumes "\<And>r c. in_bounds (mineBoard g) r c \<Longrightarrow> \<not> unrevealed (userBoard g) r c \<Longrightarrow>
      getTile (userBoard g) r c = getTile (mineBoard g) r c"
  shows "consistent g"
  unfolding consistent_def using assms by clarsimp blast

lemma flagTile_game_inv:
  assumes inv: "game_inv g" and ib: "in_bounds (userBoard g) row col"
  shows "game_inv (flagTile g row col)"
proof -
  from inv have sd: "same_dims g" and adj: "adjacency_ok (mineBoard g)" and con: "consistent g"
    and cl: "closed_except {} g" by (simp_all add: game_inv_def)
  have ibe: "in_bounds (mineBoard g) r c = in_bounds (userBoard g) r c" for r c
    using sd by (simp add: same_dims_def in_bounds_def)
  have con': "consistent (flagTile g row col)"
  proof (rule consistentI)
    fix r c assume "in_bounds (mineBoard (flagTile g row col)) r c"
      and nu: "\<not> unrevealed (userBoard (flagTile g row col)) r c"
    then have ibr: "in_bounds (userBoard g) r c" by (simp add: ibe)
    with nu have nu0: "\<not> unrevealed (userBoard g) r c" by (simp add: unrevealed_flagTile[OF ib])
    from consistentD[OF con _ nu0] ibr revealed_flagTile[OF ib ibr nu0]
    show "getTile (userBoard (flagTile g row col)) r c = getTile (mineBoard (flagTile g row col)) r c"
      by (simp add: ibe)
  qed
  have cl': "closed_except {} (flagTile g row col)"
  proof (rule closed_exceptI)
    fix z w n m
    assume ibz: "in_bounds (mineBoard (flagTile g row col)) z w"
      and z0: "getTile (userBoard (flagTile g row col)) z w = Some 0"
      and ibn: "in_bounds (mineBoard (flagTile g row col)) n m"
      and adjn: "adjacent z w n m"
      and un: "unrevealed (userBoard (flagTile g row col)) n m"
    from ibz ibn have ibz': "in_bounds (userBoard g) z w" and ibn': "in_bounds (userBoard g) n m"
      by (simp_all add: ibe)
    from z0 have "\<not> unrevealed (userBoard (flagTile g row col)) z w" by (simp add: unrevealed_def)
    then have nz: "\<not> unrevealed (userBoard g) z w" by (simp add: unrevealed_flagTile[OF ib ibz'])
    from revealed_flagTile[OF ib ibz' nz] z0 have z0': "getTile (userBoard g) z w = Some 0" by simp
    from un have un': "unrevealed (userBoard g) n m" by (simp add: unrevealed_flagTile[OF ib ibn'])
    from closed_exceptD[OF cl _ _ z0' _ adjn] ibz' ibn' un' show False by (simp add: ibe)
  qed
  from sd adj con' cl' show ?thesis by (simp add: game_inv_def)
qed

lemma fresh_game_inv: "fresh_game g \<Longrightarrow> game_inv g"
proof -
  assume f: "fresh_game g"
  then have sd: "same_dims g" and adj: "adjacency_ok (mineBoard g)"
    and un: "\<And>r c. in_bounds (userBoard g) r c \<Longrightarrow> getTile (userBoard g) r c = Some UNKNOWN"
    by (auto simp: fresh_game_def)
  have ibe: "in_bounds (mineBoard g) r c = in_bounds (userBoard g) r c" for r c
    using sd by (simp add: same_dims_def in_bounds_def)
  have "consistent g" unfolding consistent_def using un by (auto simp: ibe unrevealed_def)
  moreover have "closed_except {} g"
    by (rule closed_exceptI) (use un in \<open>auto simp: ibe\<close>)
  ultimately show ?thesis using sd adj by (simp add: game_inv_def)
qed

lemma revealUnknownAdjacent_game_inv:
  assumes inv: "game_inv g" and rv: "revealUnknownAdjacent fuel g row col = Some (ret, g')"
  shows "game_inv g' \<and> mineBoard g' = mineBoard g"
proof (rule revealUnknownAdjacent_invariant[where I = "\<lambda>s. game_inv s \<and> mineBoard s = mineBoard g",
      OF _ _ rv])
  show "game_inv g \<and> mineBoard g = mineBoard g" using inv by simp
next
  fix s r c ret s'
  assume I: "game_inv s \<and> mineBoard s = mineBoard g" and ib: "in_bounds (userBoard g) r c"
    and r: "revealTile fuel s r c = Some (ret, s')"
  from inv have "same_dims g" by (simp add: game_inv_def)
  with ib I have "in_bounds (mineBoard s) r c" by (simp add: same_dims_def in_bounds_def)
  from revealTile_game_inv[OF _ this r] I show "game_inv s' \<and> mineBoard s' = mineBoard g" by simp
qed

lemma played_game_inv:
  assumes "fresh_game g0" "played g0 g"
  shows "game_inv g \<and> mineBoard g = mineBoard g0"
  using assms(2)
proof (induction rule: played.induct)
  case start
  from fresh_game_inv[OF assms(1)] show ?case by simp
next
  case (reveal g row col fuel ret g')
  then have "same_dims g" by (simp add: game_inv_def)
  with reveal.hyps(2) have "in_bounds (mineBoard g) row col" by (simp add: same_dims_def in_bounds_def)
  from revealTile_game_inv[OF _ this reveal.hyps(3)] reveal.IH show ?case by simp
next
  case (chord g row col fuel ret g')
  from revealUnknownAdjacent_game_inv[OF _ chord.hyps(3)] chord.IH show ?case by simp
next
  case (flag g row col)
  from flagTile_game_inv[OF _ flag.hyps(2)] flag.IH show ?case by simp
qed

lemma revealTile_counters:
  assumes "counters_inv g" "in_bounds (mineBoard g) r c" "revealTile fuel g r c = Some (ret, g')"
  shows "counters_inv g' \<and> mineBoard g' = mineBoard g"
proof -
  let ?mb = "mineBoard g"
  let ?P = "\<lambda>b. rowCount b = rowCount ?mb \<and> colCount b = colCount ?mb \<and> counters_ok b"
  have "mineBoard g' = ?mb \<and> ?P (userBoard g')"
  proof (rule revealTile_invariant[where P = ?P and mb = ?mb, OF _ refl _ assms(2,3)])
    show "?P (userBoard g)" using assms(1) by (simp add: counters_inv_def same_dims_def)
  next
    fix b :: UserBoard and r c
    assume P: "?P b" and ib: "in_bounds ?mb r c" and u: "unrevealed b r c"
    from P ib have "in_bounds b r c" by (simp add: in_bounds_def)
    with P show "?P (UserBoard_setTile b r c (getTile ?mb r c))"
      by (simp add: counters_ok_UserBoard_setTile)
  qed
  then show ?thesis by (simp add: counters_inv_def same_dims_def)
qed

lemma revealUnknownAdjacent_counters:
  assumes inv: "counters_inv g" and rv: "revealUnknownAdjacent fuel g row col = Some (ret, g')"
  shows "counters_inv g' \<and> mineBoard g' = mineBoard g"
proof (rule revealUnknownAdjacent_invariant[where I = "\<lambda>s. counters_inv s \<and> mineBoard s = mineBoard g",
      OF _ _ rv])
  show "counters_inv g \<and> mineBoard g = mineBoard g" using inv by simp
next
  fix s r c ret s'
  assume I: "counters_inv s \<and> mineBoard s = mineBoard g" and ib: "in_bounds (userBoard g) r c"
    and r: "revealTile fuel s r c = Some (ret, s')"
  from inv have "same_dims g" by (simp add: counters_inv_def)
  with ib I have "in_bounds (mineBoard s) r c" by (simp add: same_dims_def in_bounds_def)
  from revealTile_counters[OF _ this r] I show "counters_inv s' \<and> mineBoard s' = mineBoard g" by simp
qed

lemma played_counters:
  assumes "counters_inv g0" "played g0 g"
  shows "counters_inv g \<and> mineBoard g = mineBoard g0"
  using assms(2)
proof (induction rule: played.induct)
  case start
  from assms(1) show ?case by simp
next
  case (reveal g row col fuel ret g')
  then have "same_dims g" by (simp add: counters_inv_def)
  with reveal.hyps(2) have "in_bounds (mineBoard g) row col" by (simp add: same_dims_def in_bounds_def)
  from revealTile_counters[OF _ this reveal.hyps(3)] reveal.IH show ?case by simp
next
  case (chord g row col fuel ret g')
  from revealUnknownAdjacent_counters[OF _ chord.hyps(3)] chord.IH show ?case by simp
next
  case (flag g row col)
  then show ?case by (simp add: counters_inv_def counters_ok_flagTile)
qed

lemma new_Game_result:
  "\<exists>g. new_Game rnd mines n = Some g \<and> fresh_game g \<and> counters_inv g
      \<and> mineCount (mineBoard g) = mines
      \<and> rowCount (mineBoard g) = n \<and> colCount (mineBoard g) = n
      \<and> count_tiles (mineBoard g) (\<lambda>t. t = Some MINE) = min (nat mines) (length (cells (mineBoard g)))"
proof -
  from new_MineBoard_result[of rnd mines n None] obtain mb where
    mb: "new_MineBoard rnd mines n None = Some mb"
    "rowCount mb = rowCount (new_Board n None)" "colCount mb = colCount (new_Board n None)"
    "mineCount mb = mines"
    "count_tiles mb (\<lambda>t. t = Some MINE) = min (nat mines) (length (cells mb))"
    and adj: "\<And>r c. in_bounds mb r c \<Longrightarrow>
            getTile mb r c = Some MINE \<or> getTile mb r c = Some (int (mine_neighbours mb r c))"
    by blast
  from new_UserBoard_result[of n None] obtain ub where
    ub: "new_UserBoard n None = Some ub"
    "rowCount ub = rowCount (new_Board n None)" "colCount ub = colCount (new_Board n None)"
    "counters_ok ub"
    and un: "\<And>r c. in_bounds ub r c \<Longrightarrow> getTile ub r c = Some UNKNOWN"
    by blast
  let ?g = "\<lparr>mineBoard = mb, userBoard = ub\<rparr>"
  have g: "new_Game rnd mines n = Some ?g" by (simp add: new_Game_def mb(1) ub(1))
  have sd: "same_dims ?g" by (simp add: same_dims_def mb ub)
  have "adjacency_ok mb"
    unfolding adjacency_ok_def
  proof (intro ballI)
    fix x assume xin: "x \<in> set (cells mb)"
    obtain r c where x: "x = (r, c)" by (cases x)
    with xin have "in_bounds mb r c" by simp
    with adj[of r c] x show "case x of (r, c) \<Rightarrow>
        getTile mb r c = Some MINE \<or> getTile mb r c = Some (int (mine_neighbours mb r c))"
      by simp
  qed
  with sd un have "fresh_game ?g" by (auto simp: fresh_game_def)
  moreover have "counters_inv ?g" using sd ub(4) by (simp add: counters_inv_def)
  ultimately show ?thesis using g mb(2-5) by (intro exI[of _ ?g]) (simp add: new_Board_def)
qed

lemma revealTile_pos:
  "0 < fuel \<Longrightarrow> revealTile fuel g row col =
     (if \<not> unrevealed (userBoard g) row col then Some (JUndefined, g)
      else if getTile (mineBoard g) row col = Some MINE
        then Some (JError ''mine revealed'', reveal_write g row col)
      else if getTile (mineBoard g) row col = Some 0
        then map_option (Pair JNull)
               (reveal_all (fuel - 1) (neighbours (mineBoard g) row col) (reveal_write g row col))
      else Some (JNull, reveal_write g row col))"
  by (cases fuel) (simp_all add: revealTile_Suc)

lemma chord_each_returns:
  "same_dims g \<Longrightarrow> (\<forall>(r, c) \<in> set ps. in_bounds (mineBoard g) r c) \<Longrightarrow>
     hidden_count (userBoard g) < fuel \<Longrightarrow> \<exists>ok g'. chord_each fuel ps g = Some (ok, g')"
proof (induction ps arbitrary: g)
  case Nil
  then show ?case by auto
next
  case (Cons p ps)
  obtain r c where p: "p = (r, c)" by (cases p)
  show ?case
  proof (cases "getTile (userBoard g) r c = Some UNKNOWN")
    case False
    with Cons.IH[OF Cons.prems(1) _ Cons.prems(3)] Cons.prems(2) show ?thesis by (simp add: p)
  next
    case True
    from Cons.prems(2) have ib: "in_bounds (mineBoard g) r c" by (simp add: p)
    from revealTile_returns[OF Cons.prems(1) ib Cons.prems(3)] obtain ret g1 where
      r1: "revealTile fuel g r c = Some (ret, g1)" by blast
    from revealTile_hidden_count[OF Cons.prems(1) ib r1] have
      k: "mineBoard g1 = mineBoard g" "same_dims g1" "hidden_count (userBoard g1) \<le> hidden_count (userBoard g)"
      by simp_all
    from Cons.prems(2) k(1) have nb: "\<forall>(r, c) \<in> set ps. in_bounds (mineBoard g1) r c" by simp
    from k(3) Cons.prems(3) have "hidden_count (userBoard g1) < fuel" by simp
    from Cons.IH[OF k(2) nb this] True r1 show ?thesis by (auto simp: p)
  qed
qed

lemma revealUnknownAdjacent_returns:
  assumes "same_dims g" "hidden_count (userBoard g) < fuel"
  shows "\<exists>ret g'. revealUnknownAdjacent fuel g row col = Some (ret, g')"
proof -
  have cf: "forEachBoundaryTile (\<lambda>s. userBoard (fst s)) row col countFlags_callback (g, 0) =
      Some (True, (g, int (flagged_neighbours (userBoard g) row col)))"
    by (simp add: forEachBoundaryTile_visit visit_countFlags flagged_neighbours_def)
  have rv: "forEachBoundaryTile userBoard row col (revealUnknown_callback fuel) g =
      chord_each fuel (neighbours (userBoard g) row col) g"
    by (simp add: forEachBoundaryTile_visit visit_revealUnknown)
  have "\<forall>(r, c) \<in> set (neighbours (userBoard g) row col). in_bounds (mineBoard g) r c"
    using assms(1) by (auto simp: same_dims_def in_bounds_def)
  from chord_each_returns[OF assms(1) this assms(2)] obtain ok g' where
    ce: "chord_each fuel (neighbours (userBoard g) row col) g = Some (ok, g')" by blast
  show ?thesis
    unfolding revealUnknownAdjacent_def Let_def cf
    by (simp add: rv ce)
qed


section \<open>Validation\<close>

lemma keeps_dims_validate: "keeps_dims mineBoard validate_callback"
  by (auto simp: keeps_dims_def validate_callback_def Let_def split: if_splits)

lemma visit_validate:
  "visit ps mineBoard validate_callback g =
     Some (list_all (\<lambda>(r, c). (getTile (mineBoard g) r c = Some MINE)
                              = (getTile (userBoard g) r c = Some FLAG)) ps, g)"
proof (induction ps)
  case Nil
  then show ?case by simp
next
  case (Cons p ps)
  obtain r c where p: "p = (r, c)" by (cases p)
  from Cons show ?case by (auto simp: p validate_callback_def Let_def)
qed

lemma validate_cells:
  "validate g = Some (flagCount (userBoard g) = mineCount (mineBoard g)
     \<and> list_all (\<lambda>(r, c). (getTile (mineBoard g) r c = Some MINE)
                          = (getTile (userBoard g) r c = Some FLAG)) (cells (mineBoard g)))"
  by (simp add: validate_def forEachTile_visit[OF keeps_dims_validate] visit_validate)

lemma filter_cong_length:
  "list_all (\<lambda>x. P x = Q x) xs \<Longrightarrow> length (filter P xs) = length (filter Q xs)"
  by (induction xs) auto

lemma validate_played:
  assumes cnt: "counters_inv g"
    and mc: "int (count_tiles (mineBoard g) (\<lambda>t. t = Some MINE)) = mineCount (mineBoard g)"
  shows "validate g = Some (flag_cells g = mine_cells g)"
proof -
  let ?U = "userBoard g" and ?S = "mineBoard g"
  let ?eq = "\<lambda>(r, c). (getTile ?S r c = Some MINE) = (getTile ?U r c = Some FLAG)"
  from cnt have sd: "rowCount ?U = rowCount ?S" "colCount ?U = colCount ?S"
    and fc: "flagCount ?U = int (count_tiles ?U (\<lambda>t. t = Some FLAG))"
    by (simp_all add: counters_inv_def same_dims_def counters_ok_def)
  have cs: "cells ?U = cells ?S" by (rule cells_cong[OF sd])
  have sets: "flag_cells g = mine_cells g \<longleftrightarrow> list_all ?eq (cells ?S)"
    unfolding flag_cells_def mine_cells_def cs list_all_iff by auto
  have "flagCount ?U = mineCount ?S" if all: "list_all ?eq (cells ?S)"
  proof -
    have "list_all (\<lambda>x. (case x of (r, c) \<Rightarrow> getTile ?S r c = Some MINE)
        = (case x of (r, c) \<Rightarrow> getTile ?U r c = Some FLAG)) (cells ?S)"
      using all by (simp add: list_all_iff case_prod_unfold)
    from filter_cong_length[OF this]
    have "count_tiles ?S (\<lambda>t. t = Some MINE) = count_tiles ?U (\<lambda>t. t = Some FLAG)"
      by (simp add: count_tiles_def cs)
    with fc mc show ?thesis by simp
  qed
  with sets show ?thesis unfolding validate_cells by auto
qed

lemma validate_flagCount:
  "flagCount (userBoard g) \<noteq> mineCount (mineBoard g) \<Longrightarrow> validate g = Some False"
  by (simp add: validate_def)


section \<open>Example games\<close>

lemma cells_1x4: "rowCount b = 1 \<Longrightarrow> colCount b = 4 \<Longrightarrow> cells b = [(0, 0), (0, 1), (0, 2), (0, 3)]"
  by (simp add: cells_def upto.simps)

lemma neighbours_1x4:
  assumes "rowCount b = 1" "colCount b = 4"
  shows "neighbours b 0 0 = [(0, 1)]"
    "neighbours b 0 1 = [(0, 0), (0, 2)]"
    "neighbours b 0 2 = [(0, 1), (0, 3)]"
    "neighbours b 0 3 = [(0, 2)]"
  by (simp_all add: neighbours_def cells_1x4[OF assms] adjacent_def)

lemma tiles_game_1x4:
  "getTile (mineBoard game_1x4) 0 0 = Some MINE" "getTile (mineBoard game_1x4) 0 1 = Some 1"
  "getTile (mineBoard game_1x4) 0 2 = Some 0" "getTile (mineBoard game_1x4) 0 3 = Some 0"
  "getTile (userBoard game_1x4) 0 0 = Some UNKNOWN" "getTile (userBoard game_1x4) 0 1 = Some UNKNOWN"
  "getTile (userBoard game_1x4) 0 2 = Some UNKNOWN" "getTile (userBoard game_1x4) 0 3 = Some UNKNOWN"
  by (simp_all add: game_1x4_def getTile_def getIndex_def array_of_def)

lemma dims_game_1x4:
  "rowCount (mineBoard game_1x4) = 1" "colCount (mineBoard game_1x4) = 4"
  "rowCount (userBoard game_1x4) = 1" "colCount (userBoard game_1x4) = 4"
  by (simp_all add: game_1x4_def)

lemma fresh_game_1x4: "fresh_game game_1x4"
  by (simp add: fresh_game_def same_dims_def adjacency_ok_def mine_neighbours_def
      cells_1x4[OF dims_game_1x4(1,2)] cells_1x4[OF dims_game_1x4(3,4)]
      neighbours_1x4[OF dims_game_1x4(1,2)] tiles_game_1x4 dims_game_1x4)

lemma hidden_count_game_1x4: "hidden_count (userBoard game_1x4) = 4"
  by (simp add: hidden_count_def count_tiles_def cells_1x4[OF dims_game_1x4(3,4)] tiles_game_1x4)

lemma cells_2x3:
  "rowCount b = 2 \<Longrightarrow> colCount b = 3 \<Longrightarrow> cells b = [(0, 0), (0, 1), (0, 2), (1, 0), (1, 1), (1, 2)]"
  by (simp add: cells_def upto.simps)

lemma neighbours_2x3:
  assumes "rowCount b = 2" "colCount b = 3"
  shows "neighbours b 0 1 = [(0, 0), (0, 2), (1, 0), (1, 1), (1, 2)]"
  by (simp_all add: neighbours_def cells_2x3[OF assms] adjacent_def)

lemma tiles_game_2x3:
  "getTile (userBoard game_2x3_flagged) 0 1 = Some 1"
  by (simp add: game_2x3_flagged_def getTile_def getIndex_def array_of_def)

lemma dims_game_2x3:
  "rowCount (userBoard game_2x3_flagged) = 2" "colCount (userBoard game_2x3_flagged) = 3"
  by (simp_all add: game_2x3_flagged_def)

lemma hidden_count_game_2x3: "hidden_count (userBoard game_2x3_flagged) = 5"
  by (simp add: hidden_count_def count_tiles_def cells_2x3[OF dims_game_2x3])
     (simp add: game_2x3_flagged_def getTile_def getIndex_def array_of_def)

lemma chordReveal_game_2x3:
  "chordReveal (6) game_2x3_flagged 0 1 1 =
     Some (JError ''adajcent mine revealed'', game_2x3_failed)"
  unfolding chordReveal_def flagged_neighbours_def neighbours_2x3[OF dims_game_2x3]
  by (simp add: revealTile_pos unrevealed_def reveal_write_def game_2x3_flagged_def
      game_2x3_failed_def getTile_def getIndex_def array_of_def array_of_upd
      UserBoard_setTile_def setTile_def Let_def)






lemma cells_1x1: "rowCount b = 1 \<Longrightarrow> colCount b = 1 \<Longrightarrow> cells b = [(0, 0)]"
  by (simp add: cells_def upto.simps)

lemma new_MineBoard_1x1_neg: "new_MineBoard id (- 1) 1 None = Some (mineBoard game_1x1_neg)"
proof -
  let ?b0 = "\<lparr>rowCount = 1, colCount = 1, data = array_of [], data_length = 0, mineCount = - 1\<rparr>"
  let ?b1 = "\<lparr>rowCount = 1, colCount = 1, data = array_of [Some 0], data_length = 1,
        mineCount = - 1\<rparr>"
  have b0: "Board.extend (new_Board 1 None) \<lparr>mineCount = - 1\<rparr> = ?b0"
    by (simp add: Board.extend_def new_Board_def array_of_Nil)
  have p1: "visit [(0, 0)] fst setMines_clear (?b0, - 1) = Some (True, (?b1, - 1))"
    by (simp add: setMines_clear_def setTile_def getIndex_def Let_def array_of_snoc)
  have sh: "snd (shuffle id ?b1) = ?b1"
    by (simp add: shuffle_def Let_def shuffle_while.simps[of _ "Suc 0"])
  have p2: "visit [(0, 0)] (\<lambda>s. s) setMines_count ?b1 = Some (True, mineBoard game_1x1_neg)"
    by (simp add: setMines_count_def getTile_def getIndex_def array_of_def game_1x1_neg_def)
  have c0: "cells ?b0 = [(0, 0)]" by (simp add: cells_1x1)
  have c1: "cells ?b1 = [(0, 0)]" by (simp add: cells_1x1)
  show ?thesis
    unfolding new_MineBoard_def b0 setMines_visit c0 p1
    by (simp only: Let_def sh c1 p2 option.case prod.case option.map_sel option.simps snd_conv)
qed

lemma new_UserBoard_1x1: "new_UserBoard 1 None = Some (userBoard game_1x1_neg)"
proof -
  let ?b0 = "\<lparr>rowCount = 1, colCount = 1, data = array_of [], data_length = 0,
      flagCount = 0, unknownCount = 0\<rparr>"
  have b0: "Board.extend (new_Board 1 None) \<lparr>flagCount = 0, unknownCount = 0\<rparr> = ?b0"
    by (simp add: Board.extend_def new_Board_def array_of_Nil)
  have c0: "cells ?b0 = [(0, 0)]" by (simp add: cells_1x1)
  have "visit [(0, 0)] (\<lambda>s. s) initBoard_callback ?b0 = Some (True, userBoard game_1x1_neg)"
    by (simp add: initBoard_callback_def UserBoard_setTile_def setTile_def getTile_def getIndex_def
        Let_def array_of_snoc array_of_def game_1x1_neg_def)
  then show ?thesis
    unfolding new_UserBoard_def initBoard_def b0 forEachTile_visit[OF keeps_dims_initBoard] c0
    by simp
qed

lemma new_Game_1x1_neg: "new_Game id (- 1) 1 = Some game_1x1_neg"
  by (simp add: new_Game_def new_MineBoard_1x1_neg new_UserBoard_1x1 game_1x1_neg_def)

lemma dims_game_1x1_neg:
  "rowCount (mineBoard game_1x1_neg) = 1" "colCount (mineBoard game_1x1_neg) = 1"
  "rowCount (userBoard game_1x1_neg) = 1" "colCount (userBoard game_1x1_neg) = 1"
  by (simp_all add: game_1x1_neg_def)

lemma dims_game_2x2:
  "rowCount (mineBoard game_2x2) = 2" "colCount (mineBoard game_2x2) = 2"
  "rowCount (userBoard game_2x2) = 2" "colCount (userBoard game_2x2) = 2"
  by (simp_all add: game_2x2_def)

lemma flag_cells_2x2: "flag_cells (flagTile game_2x2 0 0) = {(0, 0)}"
  by (simp add: flag_cells_def cells_2x2 dims_game_2x2 getTile_flagTile in_bounds_def)
     (simp add: game_2x2_def getTile_def getIndex_def array_of_def)

lemma mine_cells_2x2: "mine_cells (flagTile game_2x2 0 0) = {(0, 0)}"
  by (simp add: mine_cells_def cells_2x2 dims_game_2x2)
     (simp add: game_2x2_def getTile_def getIndex_def array_of_def)


section \<open>Claims\<close>

text \<open>
  C8. \<^verbatim>\<open>forEachBoundaryTile\<close> is the visit of the neighbourhood (row-major, clipped to the
  grid, the centre left out), and \<^verbatim>\<open>forEachTile\<close>, for a callback that leaves the
  dimensions alone, the visit of all cells in row-major order: each stops, returning
  \<^verbatim>\<open>false\<close>, at the first callback that returns the literal \<^verbatim>\<open>false\<close>, goes on after any
  other return value (\<^verbatim>\<open>undefined\<close>, \<open>0\<close>, \<^verbatim>\<open>null\<close>, an \<^verbatim>\<open>Error\<close>), and returns \<^verbatim>\<open>true\<close>
  after the last cell. For any callback at all, \<^verbatim>\<open>forEachTile\<close> returns \<^verbatim>\<open>false\<close> only
  from a callback invocation that returned the literal \<^verbatim>\<open>false\<close>.
\<close>

theorem forEach_strict_false:
  "forEachBoundaryTile this row col callback s
     = visit (neighbours (this s) row col) this callback s
   \<and> (keeps_dims this callback \<longrightarrow>
        forEachTile this callback s = visit (cells (this s)) this callback s)
   \<and> (\<forall>s'. forEachTile this callback s = Some (False, s') \<longrightarrow> returned_false this callback s')"
  by (simp add: forEachBoundaryTile_visit forEachTile_visit forEachTile_False)

theorem forEach_strict_false_witness:
  "keeps_dims (\<lambda>s::Board. s)
     (\<lambda>s r c t. Some (if r = 1 \<and> c = 0 then JBool False else JNum 0, s))
   \<and> forEachTile (\<lambda>s::Board. s)
       (\<lambda>s r c t. Some (if r = 1 \<and> c = 0 then JBool False else JNum 0, s))
       (new_Board 2 None) = Some (False, new_Board 2 None)
   \<and> forEachBoundaryTile (\<lambda>s::Board. s) 0 0
       (\<lambda>s r c t. Some (if r = 1 \<and> c = 0 then JBool False else JNum 0, s))
       (new_Board 2 None) = Some (False, new_Board 2 None)
   \<and> returned_false (\<lambda>s::Board. s)
       (\<lambda>s r c t. Some (if r = 1 \<and> c = 0 then JBool False else JNum 0, s))
       (new_Board 2 None)"
  using forEach_strict_false[of "\<lambda>s::Board. s" 0 0
      "\<lambda>s r c t. Some (if r = 1 \<and> c = 0 then JBool False else JNum 0, s)" "new_Board 2 None"]
  by (simp add: keeps_dims_def cells_def neighbours_def adjacent_def new_Board_def upto.simps)

text \<open>
  C3. The player grid the constructor returns, after any sequence of \<^verbatim>\<open>setTile\<close> writes at
  cells of the grid (a write of the value a cell already holds included): \<^verbatim>\<open>flagCount\<close> is
  the number of cells holding \<^verbatim>\<open>FLAG\<close>, \<^verbatim>\<open>unknownCount\<close> the number of cells holding
  \<^verbatim>\<open>UNKNOWN\<close>, and the two counters and the number of revealed cells add up to the number
  of cells, \<open>rowCount * colCount\<close>.
\<close>

theorem UserBoard_counters:
  "\<exists>b0. new_UserBoard rows opt_cols = Some b0 \<and>
     (\<forall>ws. (\<forall>(r, c, t) \<in> set ws. in_bounds b0 r c) \<longrightarrow>
        (let b = apply_writes b0 ws in
           flagCount b = int (count_tiles b (\<lambda>t. t = Some FLAG)) \<and>
           unknownCount b = int (count_tiles b (\<lambda>t. t = Some UNKNOWN)) \<and>
           flagCount b + unknownCount b + int (revealedCount b) = int (length (cells b)) \<and>
           length (cells b) = nat (rowCount b) * nat (colCount b)))"
proof -
  from new_UserBoard_result[of rows opt_cols] obtain b0 where
    b0: "new_UserBoard rows opt_cols = Some b0" "counters_ok b0" by blast
  have "flagCount b = int (count_tiles b (\<lambda>t. t = Some FLAG)) \<and>
        unknownCount b = int (count_tiles b (\<lambda>t. t = Some UNKNOWN)) \<and>
        flagCount b + unknownCount b + int (revealedCount b) = int (length (cells b)) \<and>
        length (cells b) = nat (rowCount b) * nat (colCount b)"
    if "\<forall>(r, c, t) \<in> set ws. in_bounds b0 r c" "b = apply_writes b0 ws" for ws b
  proof -
    from counters_ok_apply_writes[OF b0(2) that(1)] that(2) have ok: "counters_ok b" by simp
    from ok have f: "flagCount b = int (count_tiles b (\<lambda>t. t = Some FLAG))"
      and u: "unknownCount b = int (count_tiles b (\<lambda>t. t = Some UNKNOWN))"
      unfolding counters_ok_def by blast+
    from count_tiles_partition[of b] have
      "int (count_tiles b (\<lambda>t. t = Some FLAG)) + int (count_tiles b (\<lambda>t. t = Some UNKNOWN))
         + int (revealedCount b) = int (length (cells b))" by linarith
    then have "flagCount b + unknownCount b + int (revealedCount b) = int (length (cells b))"
      by (simp only: f u)
    with f u length_cells[of b] show ?thesis by blast
  qed
  with b0(1) show ?thesis unfolding Let_def by blast
qed

theorem UserBoard_counters_witness:
  "\<exists>b0. new_UserBoard 2 None = Some b0
     \<and> (\<forall>(r, c, t) \<in> set [(1, 0, Some FLAG), (1, 0, Some FLAG), (0, 1, Some 3)]. in_bounds b0 r c)
     \<and> (let b = apply_writes b0 [(1, 0, Some FLAG), (1, 0, Some FLAG), (0, 1, Some 3)] in
          flagCount b = 1 \<and> count_tiles b (\<lambda>t. t = Some FLAG) = 1
          \<and> unknownCount b = int (count_tiles b (\<lambda>t. t = Some UNKNOWN))
          \<and> 1 + unknownCount b + int (revealedCount b) = 4)"
proof -
  let ?ws = "[(1, 0, Some FLAG), (1, 0, Some FLAG), (0, 1, Some 3)]"
  from UserBoard_counters[of 2 None] obtain b0 where
    b0: "new_UserBoard 2 None = Some b0"
    and inv: "\<And>ws. (\<forall>(r, c, t) \<in> set ws. in_bounds b0 r c) \<Longrightarrow>
        (let b = apply_writes b0 ws in
           flagCount b = int (count_tiles b (\<lambda>t. t = Some FLAG)) \<and>
           unknownCount b = int (count_tiles b (\<lambda>t. t = Some UNKNOWN)) \<and>
           flagCount b + unknownCount b + int (revealedCount b) = int (length (cells b)) \<and>
           length (cells b) = nat (rowCount b) * nat (colCount b))"
    by blast
  from new_UserBoard_result[of 2 None] b0 have
    dims: "rowCount b0 = 2" "colCount b0 = 2" and f0: "flagCount b0 = 0"
    and u: "getTile b0 1 0 = Some UNKNOWN" "getTile b0 0 1 = Some UNKNOWN"
    by (auto simp: new_Board_def in_bounds_def)
  have ib: "\<forall>(r, c, t) \<in> set ?ws. in_bounds b0 r c"
    by (simp add: in_bounds_def dims)
  have fc: "flagCount (apply_writes b0 ?ws) = 1"
    by (simp add: f0 u getTile_UserBoard_setTile getIndex_def dims)
  have d: "rowCount (apply_writes b0 ?ws) = 2" "colCount (apply_writes b0 ?ws) = 2"
    by (simp_all add: dims)
  from inv[OF ib] fc d b0 ib show ?thesis
    unfolding Let_def by (intro exI[of _ b0]) simp
qed

text \<open>
  C9. On a cell already revealed (neither \<^verbatim>\<open>UNKNOWN\<close> nor \<^verbatim>\<open>FLAG\<close>), \<^verbatim>\<open>revealTile\<close>
  changes nothing in the game (both grids, \<^verbatim>\<open>flagCount\<close>, \<^verbatim>\<open>unknownCount\<close>) and returns
  success: its value is no \<^verbatim>\<open>Error\<close>, and the two tests the program applies to the result
  of a reveal, \<^verbatim>\<open>if (err)\<close> and \<^verbatim>\<open>== null\<close>, answer on it as they do on the \<^verbatim>\<open>null\<close> of a
  successful reveal.
\<close>

theorem revealTile_revealed_noop:
  "getTile (userBoard g) row col \<noteq> Some UNKNOWN \<Longrightarrow> getTile (userBoard g) row col \<noteq> Some FLAG \<Longrightarrow>
     revealTile (Suc fuel) g row col = Some (JUndefined, g)
     \<and> truthy JUndefined = truthy JNull \<and> loosely_null JUndefined = loosely_null JNull
     \<and> \<not> truthy JUndefined \<and> loosely_null JUndefined"
  by (simp add: loosely_null_def revealTile.simps)

theorem revealTile_revealed_noop_witness:
  "getTile (userBoard game_2x2_revealed) 0 1 = Some 1
   \<and> revealTile (Suc 0) game_2x2_revealed 0 1 = Some (JUndefined, game_2x2_revealed)"
  using revealTile_revealed_noop[of game_2x2_revealed 0 1 0]
  by (simp add: game_2x2_revealed_def getTile_def getIndex_def array_of_def)

text \<open>
  C10. Calling \<^verbatim>\<open>flagTile\<close> twice at the same coordinates gives back the cell values and
  both counters, and the whole game state when the player grid's array is a JavaScript
  array (nothing stored at or beyond its length).
\<close>

theorem flagTile_involution:
  "data (userBoard (flagTile (flagTile g row col) row col)) = data (userBoard g)
   \<and> flagCount (userBoard (flagTile (flagTile g row col) row col)) = flagCount (userBoard g)
   \<and> unknownCount (userBoard (flagTile (flagTile g row col) row col)) = unknownCount (userBoard g)
   \<and> (array_wf (userBoard g) \<longrightarrow> flagTile (flagTile g row col) row col = g)"
proof -
  have "data (userBoard (flagTile (flagTile g row col) row col)) = data (userBoard g)"
    by (auto simp: flagTile_def getTile_UserBoard_setTile getTile_def fun_upd_idem)
  moreover have "flagCount (userBoard (flagTile (flagTile g row col) row col)) = flagCount (userBoard g)"
    by (auto simp: flagTile_def getTile_UserBoard_setTile)
  moreover have "unknownCount (userBoard (flagTile (flagTile g row col) row col)) = unknownCount (userBoard g)"
    by (auto simp: flagTile_def getTile_UserBoard_setTile)
  ultimately show ?thesis using flagTile_twice[of g row col] by blast
qed

theorem flagTile_involution_witness:
  "array_wf (userBoard game_2x2)
   \<and> flagCount (userBoard (flagTile game_2x2 1 0)) = 1
   \<and> flagTile (flagTile game_2x2 1 0) 1 0 = game_2x2"
  using flagTile_involution[of game_2x2 1 0]
  by (simp add: array_wf_array_of[of _ "[Some UNKNOWN, Some UNKNOWN, Some UNKNOWN, Some UNKNOWN]"]
      game_2x2_def flagTile_def getTile_def getIndex_def array_of_def)

text \<open>
  C4. For every requested \<^verbatim>\<open>mineCount\<close>, negative or beyond the number of cells included,
  and every sequence of random draws, the constructor of the solution grid returns, and
  the number of cells holding \<^verbatim>\<open>MINE\<close> is \<open>min mineCount (number of cells)\<close>, a negative
  request counting as zero; \<^verbatim>\<open>mineCount\<close> keeps the requested value. The number of cells
  is \<open>rowCount * colCount\<close> (each dimension counted as zero when negative), the dimensions
  being those the constructor of the grid was given.
\<close>

theorem new_MineBoard_mine_count:
  "\<exists>b. new_MineBoard rnd mines rows opt_cols = Some b
      \<and> mineCount b = mines
      \<and> int (count_tiles b (\<lambda>t. t = Some MINE)) = max 0 (min mines (int (length (cells b))))
      \<and> length (cells b) = nat (rowCount b) * nat (colCount b)
      \<and> rowCount b = rowCount (new_Board rows opt_cols)
      \<and> colCount b = colCount (new_Board rows opt_cols)"
proof -
  from new_MineBoard_result[of rnd mines rows opt_cols] obtain b where
    b: "new_MineBoard rnd mines rows opt_cols = Some b" "mineCount b = mines"
    "count_tiles b (\<lambda>t. t = Some MINE) = min (nat mines) (length (cells b))"
    "rowCount b = rowCount (new_Board rows opt_cols)"
    "colCount b = colCount (new_Board rows opt_cols)"
    by blast
  have "int (min (nat mines) (length (cells b))) = max 0 (min mines (int (length (cells b))))"
    by auto
  with b length_cells[of b] show ?thesis by auto
qed

text \<open>
  C5. Right after construction, every cell of the solution grid that does not hold
  \<^verbatim>\<open>MINE\<close> holds the number of its neighbours (the up to 8 cells around it inside the
  grid) that hold \<^verbatim>\<open>MINE\<close>.
\<close>

theorem new_MineBoard_adjacency:
  "\<exists>b. new_MineBoard rnd mines rows opt_cols = Some b
      \<and> (\<forall>(r, c) \<in> set (cells b). getTile b r c \<noteq> Some MINE \<longrightarrow>
            getTile b r c = Some (int (mine_neighbours b r c)))"
proof -
  from new_MineBoard_result[of rnd mines rows opt_cols] obtain b where
    b: "new_MineBoard rnd mines rows opt_cols = Some b"
    and adj: "\<forall>r c. in_bounds b r c \<longrightarrow>
            getTile b r c = Some MINE \<or> getTile b r c = Some (int (mine_neighbours b r c))"
    by blast
  have "\<forall>(r, c) \<in> set (cells b). getTile b r c \<noteq> Some MINE \<longrightarrow>
            getTile b r c = Some (int (mine_neighbours b r c))"
  proof (intro ballI, clarify)
    fix r c assume "(r, c) \<in> set (cells b)" "getTile b r c \<noteq> Some MINE"
    with adj[rule_format, of r c] show "getTile b r c = Some (int (mine_neighbours b r c))"
      by simp
  qed
  with b show ?thesis by blast
qed

theorem new_MineBoard_adjacency_witness:
  "\<exists>b. new_MineBoard (\<lambda>i. i) 1 2 None = Some b
      \<and> (1, 1) \<in> set (cells b) \<and> getTile b 1 1 = Some 1 \<and> mine_neighbours b 1 1 = 1
      \<and> getTile b 0 0 = Some MINE"
proof -
  from new_MineBoard_adjacency[of "\<lambda>i. i" 1 2 None] obtain b where
    b: "new_MineBoard (\<lambda>i. i) 1 2 None = Some b"
    and adj: "\<forall>(r, c) \<in> set (cells b). getTile b r c \<noteq> Some MINE \<longrightarrow>
            getTile b r c = Some (int (mine_neighbours b r c))" by blast
  from b have eq: "b = mineBoard game_2x2" by (simp add: new_MineBoard_2x2)
  have c: "(1, 1) \<in> set (cells b)" by (simp add: eq game_2x2_def in_bounds_def)
  have t: "getTile b 1 1 = Some 1" "getTile b 0 0 = Some MINE"
    by (simp_all add: eq game_2x2_def getTile_def getIndex_def array_of_def)
  from adj[rule_format, OF c] t have "mine_neighbours b 1 1 = 1" by simp
  with b c t show ?thesis by blast
qed

text \<open>
  C1. Take a fresh game (any solution grid that satisfies the adjacency invariant) and any
  state reached from it by play. On a cell of the grid whose solution value is \<open>0\<close>,
  \<^verbatim>\<open>revealTile\<close> returns, with no failure, as soon as it is allowed one more nested call than
  there are unrevealed cells; afterwards every cell of the connected region of \<open>0\<close>-valued
  cells around the cell, and every cell of the ring of non-zero, non-mine cells bordering
  that region, is revealed and shows its solution value, and every other cell of the player
  grid holds what it held before. The solution grid is unchanged.
\<close>

theorem revealTile_flood_fill:
  assumes "fresh_game g0" "played g0 g" "in_bounds (mineBoard g) row col"
    and "getTile (mineBoard g) row col = Some 0" "hidden_count (userBoard g) < fuel"
  shows "\<exists>ret g'. revealTile fuel g row col = Some (ret, g')
     \<and> (ret = JNull \<or> ret = JUndefined) \<and> mineBoard g' = mineBoard g
     \<and> (\<forall>r c. in_bounds (mineBoard g) r c \<longrightarrow>
          (if (r, c) \<in> zero_region (mineBoard g) row col \<union> ring (mineBoard g) row col
           then getTile (userBoard g') r c = getTile (mineBoard g) r c
                \<and> \<not> unrevealed (userBoard g') r c
           else getTile (userBoard g') r c = getTile (userBoard g) r c))"
proof -
  from played_game_inv[OF assms(1,2)] have inv: "game_inv g" by simp
  then have sd: "same_dims g" and adj: "adjacency_ok (mineBoard g)" by (simp_all add: game_inv_def)
  from revealTile_returns[OF sd assms(3,5)] obtain ret g' where
    rv: "revealTile fuel g row col = Some (ret, g')" by blast
  from assms(5) obtain k where k: "fuel = Suc k" by (cases fuel) simp_all
  from rv assms(4) have ret: "ret = JNull \<or> ret = JUndefined"
    unfolding k revealTile_Suc by (auto split: if_splits)
  from revealTile_game_inv(2)[OF inv assms(3) rv] have mb: "mineBoard g' = mineBoard g" .
  have cells: "if (r, c) \<in> zero_region (mineBoard g) row col \<union> ring (mineBoard g) row col
           then getTile (userBoard g') r c = getTile (mineBoard g) r c
                \<and> \<not> unrevealed (userBoard g') r c
           else getTile (userBoard g') r c = getTile (userBoard g) r c"
    if ib: "in_bounds (mineBoard g) r c" for r c
  proof (cases "(r, c) \<in> zero_region (mineBoard g) row col \<union> ring (mineBoard g) row col")
    case False
    with revealTile_cascade_result[OF inv assms(3,4) rv ib] show ?thesis by simp
  next
    case True
    with revealTile_cascade_result[OF inv assms(3,4) rv ib]
    have e: "getTile (userBoard g') r c = getTile (mineBoard g) r c" by simp
    from adjacency_ok_wf[OF adj] ib have "\<not> unrevealed (mineBoard g) r c"
      by (auto simp: solution_wf_def)
    with e have "\<not> unrevealed (userBoard g') r c" by (simp add: unrevealed_def)
    with e True show ?thesis by simp
  qed
  from rv ret mb cells show ?thesis by blast
qed

theorem revealTile_flood_fill_witness:
  "\<exists>ret g'. revealTile 5 game_1x4 0 3 = Some (ret, g')
     \<and> getTile (userBoard g') 0 3 = Some 0 \<and> getTile (userBoard g') 0 2 = Some 0
     \<and> getTile (userBoard g') 0 1 = Some 1 \<and> getTile (userBoard g') 0 0 = Some UNKNOWN"
proof -
  let ?mb = "mineBoard game_1x4"
  have ib: "in_bounds ?mb 0 0" "in_bounds ?mb 0 1" "in_bounds ?mb 0 2" "in_bounds ?mb 0 3"
    by (simp_all add: in_bounds_def dims_game_1x4)
  from revealTile_flood_fill[of game_1x4 game_1x4 0 3 5, OF fresh_game_1x4 played.start]
  obtain ret g' where rv: "revealTile 5 game_1x4 0 3 = Some (ret, g')"
    and cells: "\<And>r c. in_bounds ?mb r c \<Longrightarrow>
          (if (r, c) \<in> zero_region ?mb 0 3 \<union> ring ?mb 0 3
           then getTile (userBoard g') r c = getTile ?mb r c \<and> \<not> unrevealed (userBoard g') r c
           else getTile (userBoard g') r c = getTile (userBoard game_1x4) r c)"
    by (simp add: ib tiles_game_1x4 hidden_count_game_1x4) blast
  have z3: "(0, 3) \<in> zero_region ?mb 0 3"
    by (rule zero_region.start) (simp_all add: ib tiles_game_1x4)
  have z2: "(0, 2) \<in> zero_region ?mb 0 3"
    by (rule zero_region.step[OF z3]) (simp_all add: ib tiles_game_1x4 adjacent_def)
  have r1: "(0, 1) \<in> ring ?mb 0 3"
    unfolding ring_def using z2
    by (auto simp: ib tiles_game_1x4 adjacent_def intro!: bexI[of _ "(0, 2)"])
  have n0: "(0, 0) \<notin> zero_region ?mb 0 3 \<union> ring ?mb 0 3"
    using zero_region_zero[of 0 0 ?mb 0 3] by (auto simp: ring_def tiles_game_1x4)
  from cells[OF ib(4)] z3 have "getTile (userBoard g') 0 3 = Some 0" by (simp add: tiles_game_1x4)
  moreover from cells[OF ib(3)] z2 have "getTile (userBoard g') 0 2 = Some 0" by (simp add: tiles_game_1x4)
  moreover from cells[OF ib(2)] r1 have "getTile (userBoard g') 0 1 = Some 1" by (simp add: tiles_game_1x4)
  moreover from cells[OF ib(1)] n0 have "getTile (userBoard g') 0 0 = Some UNKNOWN"
    by (simp add: tiles_game_1x4)
  ultimately show ?thesis using rv by blast
qed

text \<open>
  C7. On a cell showing the number \<open>t\<close>, \<^verbatim>\<open>revealUnknownAdjacent\<close> is \<open>chordReveal\<close>: it
  changes nothing and returns \<^verbatim>\<open>null\<close> when \<open>t\<close> is negative or the flagged neighbours are
  fewer than \<open>t\<close>; otherwise it takes the neighbours in row-major order, reveals each one that
  is \<^verbatim>\<open>UNKNOWN\<close> when its turn comes, and returns an \<^verbatim>\<open>Error\<close> exactly when one of these
  reveals hits a mine: the walk ends there, in the state that reveal left, so what was
  revealed before stays revealed and the neighbours after it are not touched. It returns
  as soon as it is allowed one more nested call than there are unrevealed cells.
\<close>

theorem revealUnknownAdjacent_chord:
  assumes "getTile (userBoard g) row col = Some t"
  shows "revealUnknownAdjacent fuel g row col = chordReveal fuel g row col t
     \<and> (same_dims g \<longrightarrow> hidden_count (userBoard g) < fuel \<longrightarrow>
          (\<exists>ret g'. revealUnknownAdjacent fuel g row col = Some (ret, g')))"
  using revealUnknownAdjacent_chordReveal[OF assms] revealUnknownAdjacent_returns[of g fuel row col]
  by blast

theorem revealUnknownAdjacent_chord_witness:
  "getTile (userBoard game_2x3_flagged) 0 1 = Some 1
   \<and> same_dims game_2x3_flagged \<and> hidden_count (userBoard game_2x3_flagged) < 6
   \<and> revealUnknownAdjacent 6 game_2x3_flagged 0 1 =
       Some (JError ''adajcent mine revealed'', game_2x3_failed)"
  using revealUnknownAdjacent_chord[of game_2x3_flagged 0 1 1 "6"]
  by (simp add: tiles_game_2x3 hidden_count_game_2x3 chordReveal_game_2x3)
     (simp add: same_dims_def game_2x3_flagged_def)




text \<open>
  C2 (amended). For every game constructed with a mine count that is not negative and is at
  most the number of cells, and every state reached from it by play, \<^verbatim>\<open>validate\<close> returns
  \<^verbatim>\<open>true\<close> exactly when the flagged cells of the player grid are the mine cells of the
  solution grid; and it returns \<^verbatim>\<open>false\<close> whenever \<^verbatim>\<open>flagCount\<close> differs from \<^verbatim>\<open>mineCount\<close>.
  The constructor returns for every input.
\<close>

theorem validate_flags_are_mines:
  assumes "0 \<le> mines" "mines \<le> int (nat n * nat n)"
  shows "\<exists>g0. new_Game rnd mines n = Some g0
     \<and> (\<forall>g. played g0 g \<longrightarrow>
           validate g = Some (flag_cells g = mine_cells g)
           \<and> (flagCount (userBoard g) \<noteq> mineCount (mineBoard g) \<longrightarrow> validate g = Some False))"
proof -
  from new_Game_result[of rnd mines n] obtain g0 where
    g0: "new_Game rnd mines n = Some g0" and cnt: "counters_inv g0"
    and mc: "mineCount (mineBoard g0) = mines"
    and cm: "count_tiles (mineBoard g0) (\<lambda>t. t = Some MINE) = min (nat mines) (length (cells (mineBoard g0)))"
    and dims: "rowCount (mineBoard g0) = n" "colCount (mineBoard g0) = n"
    by blast
  have "length (cells (mineBoard g0)) = nat n * nat n" by (simp add: length_cells dims)
  with cm assms have cm': "int (count_tiles (mineBoard g0) (\<lambda>t. t = Some MINE)) = mines" by simp
  have "validate g = Some (flag_cells g = mine_cells g)
      \<and> (flagCount (userBoard g) \<noteq> mineCount (mineBoard g) \<longrightarrow> validate g = Some False)"
    if "played g0 g" for g
  proof -
    from played_counters[OF cnt that] have c: "counters_inv g" and m: "mineBoard g = mineBoard g0"
      by simp_all
    from validate_played[OF c] cm' mc m validate_flagCount[of g] show ?thesis by simp
  qed
  with g0 show ?thesis by blast
qed

theorem validate_flags_are_mines_witness:
  "(0::int) \<le> 1 \<and> (1::int) \<le> int (nat 2 * nat 2)
   \<and> new_Game (\<lambda>i. i) 1 2 = Some game_2x2
   \<and> played game_2x2 (flagTile game_2x2 0 0)
   \<and> flag_cells (flagTile game_2x2 0 0) = mine_cells (flagTile game_2x2 0 0)
   \<and> validate (flagTile game_2x2 0 0) = Some True
   \<and> played game_2x2 game_2x2
   \<and> flagCount (userBoard game_2x2) \<noteq> mineCount (mineBoard game_2x2)
   \<and> validate game_2x2 = Some False"
proof -
  have p: "played game_2x2 (flagTile game_2x2 0 0)"
    by (rule played.flag[OF played.start]) (simp add: in_bounds_def dims_game_2x2)
  have ne: "flagCount (userBoard game_2x2) \<noteq> mineCount (mineBoard game_2x2)"
    by (simp add: game_2x2_def)
  have h: "(0::int) \<le> 1" "(1::int) \<le> int (nat 2 * nat 2)" by simp_all
  from validate_flags_are_mines[OF h, of "\<lambda>i. i"] obtain g0 where
    g0: "new_Game (\<lambda>i. i) 1 2 = Some g0"
    and all0: "\<forall>g. played g0 g \<longrightarrow>
      validate g = Some (flag_cells g = mine_cells g)
      \<and> (flagCount (userBoard g) \<noteq> mineCount (mineBoard g) \<longrightarrow> validate g = Some False)"
    by blast
  from g0 have e: "g0 = game_2x2" by (simp add: new_Game_2x2)
  note all = all0[unfolded e, rule_format]
  from all[OF p]
  have "validate (flagTile game_2x2 0 0) = Some True"
    by (simp add: flag_cells_2x2 mine_cells_2x2)
  moreover from all[OF played.start] ne have "validate game_2x2 = Some False" by blast
  ultimately show ?thesis
    using p ne played.start[of game_2x2]
    by (simp add: new_Game_2x2 flag_cells_2x2 mine_cells_2x2)
qed

text \<open>
  C2 as stated fails for a negative mine count, which the constructor accepts and keeps:
  the game has no mine and no flag, the two sets are equal, and \<^verbatim>\<open>validate\<close> returns
  \<^verbatim>\<open>false\<close>, \<^verbatim>\<open>flagCount\<close> being \<open>0\<close> and \<^verbatim>\<open>mineCount\<close> \<open>-1\<close>.
\<close>

theorem validate_negative_mineCount_counterexample:
  "new_Game id (- 1) 1 = Some game_1x1_neg
   \<and> mineCount (mineBoard game_1x1_neg) = - 1
   \<and> mineCount (mineBoard game_1x1_neg)
        \<le> rowCount (mineBoard game_1x1_neg) * colCount (mineBoard game_1x1_neg)
   \<and> flag_cells game_1x1_neg = mine_cells game_1x1_neg
   \<and> validate game_1x1_neg = Some False"
  by (simp add: new_Game_1x1_neg validate_def flag_cells_def mine_cells_def
      cells_1x1[OF dims_game_1x1_neg(1,2)] cells_1x1[OF dims_game_1x1_neg(3,4)])
     (simp add: game_1x1_neg_def getTile_def getIndex_def array_of_def)

end
